theory Spec2Isabelle
  imports Main "HOL-Library.Sublist"
begin

section \<open>Values, channels and the heap of client queues\<close>

text \<open>
  \<^verbatim>\<open>type State interface{}\<close> and \<^verbatim>\<open>type Event interface{}\<close> are the same Go type:
  any value. The only value the package itself builds is \<^verbatim>\<open>struct{}{}\<close>, the default
  state; everything else comes from the producer and is never inspected.
\<close>

datatype 'a iface = EmptyStruct | Val 'a

text \<open>
  A \<^verbatim>\<open>chan Event\<close> is a reference. Its identity is an address; the heap maps the address
  to the buffered values (oldest first), the capacity given to \<^verbatim>\<open>make\<close> and the closed flag.
\<close>

type_synonym chan = nat

record 'a chanbuf =
  items :: "'a iface list"
  capacity :: nat
  is_closed :: bool

text \<open>
  The run-time panics of Go's channel operations. The operand tells the client queues
  (closed and written by the loop) from the two control channels (written by callers).
\<close>

datatype chan_ref = ClientChan chan | RegisterChan | UnregisterChan

datatype fault = SendOnClosedChannel chan_ref | CloseOfClosedChannel chan_ref

text \<open>
  What one call of \<^verbatim>\<open>ServeWebsocket\<close> is doing: it holds the state returned by
  \<^verbatim>\<open>listen\<close> and has not written it yet (\<open>Initial\<close>), it is in the \<^verbatim>\<open>range\<close> loop
  over its queue (\<open>Streaming\<close>), a websocket write failed and it is about to call
  \<^verbatim>\<open>stop\<close> (\<open>Stopping\<close>), it has returned after \<^verbatim>\<open>stop\<close> (\<open>Aborted\<close>) or after the
  queue was closed and drained (\<open>Finished\<close>). \<open>Idle\<close>: no such call owns the queue.
\<close>

datatype 'a phase = Idle | Initial "'a iface" | Streaming | Stopping | Aborted | Finished

text \<open>
  The state of the program. \<open>clients\<close> is the local \<^verbatim>\<open>clientSet\<close> of \<^verbatim>\<open>run\<close>, a
  \<^verbatim>\<open>map[chan Event]bool\<close> whose values are all \<^verbatim>\<open>true\<close>: its keys, each once, in
  the order a \<^verbatim>\<open>range\<close> visits them. \<open>chans\<close> is the heap of client queues and
  \<open>nextChan\<close> the next address \<^verbatim>\<open>make\<close> hands out. \<open>running\<close> holds while the
  goroutine of \<^verbatim>\<open>run\<close> is in its loop; when it returns, its deferred calls close
  \<^verbatim>\<open>registerChan\<close> and \<^verbatim>\<open>unregisterChan\<close>, so these two are closed exactly when
  \<open>running\<close> is false. \<open>phase\<close> and \<open>wire\<close> belong to the \<^verbatim>\<open>ServeWebsocket\<close> call that
  owns a queue: where it stands, and the values it has written to its connection.
\<close>

record 'a system =
  clients :: "chan list"
  chans :: "chan \<Rightarrow> 'a chanbuf"
  nextChan :: chan
  running :: bool
  phase :: "chan \<Rightarrow> 'a phase"
  wire :: "chan \<Rightarrow> 'a iface list"

definition EVENTS_BUFFER :: nat where
  "EVENTS_BUFFER = 100"

section \<open>clientSet\<close>

text \<open>\<^verbatim>\<open>clientSet[clientChan] = true\<close>: a key already present stays where it is.\<close>

definition register :: "chan \<Rightarrow> 'a system \<Rightarrow> 'a system" where
  "register c st = st\<lparr>clients := List.insert c (clients st)\<rparr>"

text \<open>\<^verbatim>\<open>delete(clientSet, clientChan)\<close>: nothing happens when the key is absent.\<close>

definition unregister :: "chan \<Rightarrow> 'a system \<Rightarrow> 'a system" where
  "unregister c st = st\<lparr>clients := removeAll c (clients st)\<rparr>"

text \<open>The builtin \<^verbatim>\<open>close\<close> on a client queue; closing a closed channel panics.\<close>

definition close_chan :: "chan \<Rightarrow> 'a system \<Rightarrow> fault + 'a system" where
  "close_chan c st =
     (if is_closed (chans st c) then Inl (CloseOfClosedChannel (ClientChan c))
      else Inr (st\<lparr>chans := (chans st)(c := (chans st c)\<lparr>is_closed := True\<rparr>)\<rparr>))"

text \<open>\<^verbatim>\<open>close(clientChan); delete(clientSet, clientChan)\<close>\<close>

definition drop :: "chan \<Rightarrow> 'a system \<Rightarrow> fault + 'a system" where
  "drop c st =
     (case close_chan c st of
        Inl f \<Rightarrow> Inl f
      | Inr st' \<Rightarrow> Inr (unregister c st'))"

text \<open>
  \<^verbatim>\<open>select { case clientChan <- event: default: clientSet.drop(clientChan) }\<close>.
  A send on a closed channel is always ready and panics. On an open channel the send is
  ready when the buffer has room; otherwise the \<^verbatim>\<open>default\<close> branch runs. (A receiver
  parked on an empty buffer takes the value at once; that is the enqueue here followed
  by the receiver's own step. The client queues are buffered: \<^verbatim>\<open>listen\<close> makes them
  with \<^verbatim>\<open>EVENTS_BUFFER\<close> places.)
\<close>

definition send :: "chan \<Rightarrow> 'a iface \<Rightarrow> 'a system \<Rightarrow> fault + 'a system" where
  "send c e st =
     (if is_closed (chans st c) then Inl (SendOnClosedChannel (ClientChan c))
      else if length (items (chans st c)) < capacity (chans st c)
        then Inr (st\<lparr>chans := (chans st)(c := (chans st c)\<lparr>items := items (chans st c) @ [e]\<rparr>)\<rparr>)
      else drop c st)"

text \<open>
  \<^verbatim>\<open>for clientChan, _ := range clientSet { clientSet.send(clientChan, event) }\<close>.
  The keys are those present when the loop starts; a key deleted before the iteration
  reaches it is not produced.
\<close>

fun publish_range :: "chan list \<Rightarrow> 'a iface \<Rightarrow> 'a system \<Rightarrow> fault + 'a system" where
  "publish_range [] e st = Inr st"
| "publish_range (c # cs) e st =
     (if c \<in> set (clients st)
      then (case send c e st of
              Inl f \<Rightarrow> Inl f
            | Inr st' \<Rightarrow> publish_range cs e st')
      else publish_range cs e st)"

definition publish :: "'a iface \<Rightarrow> 'a system \<Rightarrow> fault + 'a system" where
  "publish e st = publish_range (clients st) e st"

text \<open>\<^verbatim>\<open>for clientChan, _ := range clientSet { clientSet.drop(clientChan) }\<close>\<close>

fun close_range :: "chan list \<Rightarrow> 'a system \<Rightarrow> fault + 'a system" where
  "close_range [] st = Inr st"
| "close_range (c # cs) st =
     (if c \<in> set (clients st)
      then (case drop c st of
              Inl f \<Rightarrow> Inl f
            | Inr st' \<Rightarrow> close_range cs st')
      else close_range cs st)"

definition close_clients :: "'a system \<Rightarrow> fault + 'a system" where
  "close_clients st = close_range (clients st) st"

section \<open>Events: the control loop\<close>

text \<open>
  What one \<^verbatim>\<open>select\<close> of \<^verbatim>\<open>run\<close> can receive: a queue from \<^verbatim>\<open>registerChan\<close>, a
  queue from \<^verbatim>\<open>unregisterChan\<close>, an event from \<^verbatim>\<open>EventPush\<close>, or the closure of
  \<^verbatim>\<open>EventPush\<close> (\<^verbatim>\<open>ok == false\<close>).
\<close>

datatype 'a msg = Register chan | Unregister chan | EventPush "'a iface" | EventClosed

text \<open>\<^verbatim>\<open>MakeEvents\<close>: two fresh control channels, the loop started with an empty set.\<close>

definition MakeEvents :: "'a system" where
  "MakeEvents =
     \<lparr>clients = [],
      chans = (\<lambda>_. \<lparr>items = [], capacity = 0, is_closed = False\<rparr>),
      nextChan = 0,
      running = True,
      phase = (\<lambda>_. Idle),
      wire = (\<lambda>_. [])\<rparr>"

text \<open>
  The \<^verbatim>\<open>return\<close> of \<^verbatim>\<open>run\<close>. The deferred calls run last-in first-out:
  \<^verbatim>\<open>close(events.unregisterChan)\<close>, \<^verbatim>\<open>close(events.registerChan)\<close>, then
  \<^verbatim>\<open>clients.close()\<close>.
\<close>

definition run_return :: "'a system \<Rightarrow> fault + 'a system" where
  "run_return st = close_clients (st\<lparr>running := False\<rparr>)"

text \<open>One iteration of the \<^verbatim>\<open>for { select { ... } }\<close> of \<^verbatim>\<open>run\<close>.\<close>

fun run_select :: "'a msg \<Rightarrow> 'a system \<Rightarrow> fault + 'a system" where
  "run_select (Register c) st = Inr (register c st)"
| "run_select (Unregister c) st = Inr (unregister c st)"
| "run_select (EventPush e) st = publish e st"
| "run_select EventClosed st = run_return st"

text \<open>
  \<^verbatim>\<open>run\<close> on the messages its \<^verbatim>\<open>select\<close> receives, in the order it receives them. With
  nothing to receive it waits; once it has returned nothing is received any more.
\<close>

fun run :: "'a msg list \<Rightarrow> 'a system \<Rightarrow> fault + 'a system" where
  "run [] st = Inr st"
| "run (m # ms) st =
     (if running st
      then (case run_select m st of
              Inl f \<Rightarrow> Inl f
            | Inr st' \<Rightarrow> run ms st')
      else Inr st)"

section \<open>Events: the calls of a subscriber\<close>

text \<open>
  \<^verbatim>\<open>EventConfig\<close>. \<^verbatim>\<open>StateFunc\<close> is a closure, \<^verbatim>\<open>nil\<close> or not; what it returns depends
  on the application behind it, which is the argument \<open>'w\<close> here. \<^verbatim>\<open>EventPush\<close> is the
  source of the \<open>EventPush\<close> and \<open>EventClosed\<close> messages.
\<close>

record ('w, 'a) EventConfig =
  StateFunc :: "('w \<Rightarrow> 'a iface) option"

text \<open>\<^verbatim>\<open>events.state()\<close>, called while the application is in \<open>w\<close>.\<close>

definition state :: "('w, 'a) EventConfig \<Rightarrow> 'w \<Rightarrow> 'a iface" where
  "state config w =
     (case StateFunc config of
        Some f \<Rightarrow> f w
      | None \<Rightarrow> EmptyStruct)"

text \<open>\<^verbatim>\<open>make(chan Event, n)\<close>: a new address, an empty open buffer of capacity \<open>n\<close>.\<close>

definition make_chan :: "nat \<Rightarrow> 'a system \<Rightarrow> chan \<times> 'a system" where
  "make_chan n st =
     (nextChan st,
      st\<lparr>chans := (chans st)(nextChan st := \<lparr>items = [], capacity = n, is_closed = False\<rparr>),
         nextChan := Suc (nextChan st)\<rparr>)"

text \<open>
  \<^verbatim>\<open>listen\<close>, with the buffer size as an argument; the program's \<^verbatim>\<open>listen\<close> passes
  \<^verbatim>\<open>EVENTS_BUFFER\<close>. \<^verbatim>\<open>registerChan\<close> is unbuffered: the send completes when the loop
  receives the queue in its \<^verbatim>\<open>select\<close>, and the loop registers it before it receives
  anything else. After \<^verbatim>\<open>run\<close> has returned the channel is closed and the send panics.
  \<^verbatim>\<open>events.state()\<close> is evaluated after the send, in the application state \<open>w\<close> of
  that moment.
\<close>

definition listen_buffer ::
  "nat \<Rightarrow> ('w, 'a) EventConfig \<Rightarrow> 'w \<Rightarrow> 'a system \<Rightarrow> fault + ('a iface \<times> chan \<times> 'a system)" where
  "listen_buffer n config w st =
     (case make_chan n st of
        (eventChan, st1) \<Rightarrow>
          if \<not> running st1 then Inl (SendOnClosedChannel RegisterChan)
          else (case run_select (Register eventChan) st1 of
                  Inl f \<Rightarrow> Inl f
                | Inr st2 \<Rightarrow> Inr (state config w, eventChan, st2)))"

definition listen ::
  "('w, 'a) EventConfig \<Rightarrow> 'w \<Rightarrow> 'a system \<Rightarrow> fault + ('a iface \<times> chan \<times> 'a system)" where
  "listen = listen_buffer EVENTS_BUFFER"

text \<open>
  \<^verbatim>\<open>stop\<close>: \<^verbatim>\<open>events.unregisterChan <- eventsClient\<close>, received by the loop, or a panic
  when the loop has returned.
\<close>

definition stop :: "chan \<Rightarrow> 'a system \<Rightarrow> fault + 'a system" where
  "stop c st =
     (if \<not> running st then Inl (SendOnClosedChannel UnregisterChan)
      else run_select (Unregister c) st)"

text \<open>
  A receive on a client queue, as \<^verbatim>\<open>range eventsClient\<close> does it: the oldest buffered
  value if there is one (also on a closed channel), the end of the range when the channel
  is closed and empty, and otherwise the receiver waits.
\<close>

datatype 'a received = Got "'a iface" "'a system" | Drained | Waiting

definition recv :: "chan \<Rightarrow> 'a system \<Rightarrow> 'a received" where
  "recv c st =
     (case items (chans st c) of
        e # es \<Rightarrow> Got e (st\<lparr>chans := (chans st)(c := (chans st c)\<lparr>items := es\<rparr>)\<rparr>)
      | [] \<Rightarrow> if is_closed (chans st c) then Drained else Waiting)"

text \<open>
  One step of the \<^verbatim>\<open>ServeWebsocket\<close> call that owns queue \<open>c\<close>; \<open>ok\<close> tells whether the
  \<^verbatim>\<open>websocket.JSON.Send\<close> of this step succeeds. \<^verbatim>\<open>serveWebsocket\<close> writes the state
  first, then each event it receives; the first failed write makes it return the error,
  and \<^verbatim>\<open>ServeWebsocket\<close> then calls \<^verbatim>\<open>events.stop\<close>.
\<close>

definition serve_step :: "chan \<Rightarrow> bool \<Rightarrow> 'a system \<Rightarrow> fault + 'a system" where
  "serve_step c ok st =
     (case phase st c of
        Initial s \<Rightarrow>
          if ok then Inr (st\<lparr>wire := (wire st)(c := wire st c @ [s]),
                             phase := (phase st)(c := Streaming)\<rparr>)
          else Inr (st\<lparr>phase := (phase st)(c := Stopping)\<rparr>)
      | Streaming \<Rightarrow>
          (case recv c st of
             Got e st' \<Rightarrow>
               if ok then Inr (st'\<lparr>wire := (wire st')(c := wire st' c @ [e])\<rparr>)
               else Inr (st'\<lparr>phase := (phase st')(c := Stopping)\<rparr>)
           | Drained \<Rightarrow> Inr (st\<lparr>phase := (phase st)(c := Finished)\<rparr>)
           | Waiting \<Rightarrow> Inr st)
      | Stopping \<Rightarrow>
          (case stop c st of
             Inl f \<Rightarrow> Inl f
           | Inr st' \<Rightarrow> Inr (st'\<lparr>phase := (phase st')(c := Aborted)\<rparr>))
      | _ \<Rightarrow> Inr st)"

section \<open>The program as a whole\<close>

text \<open>
  Everything that happens is one of: a \<^verbatim>\<open>ServeWebsocket\<close> call starts and gets through
  \<^verbatim>\<open>listen\<close> (the application being in \<open>w\<close> when the state is read); the call owning a
  queue takes its next step; somebody calls \<^verbatim>\<open>stop\<close> on a queue, as the readers of
  \<^verbatim>\<open>events_test.go\<close> do; the loop receives an event; the loop finds \<^verbatim>\<open>EventPush\<close>
  closed. The first argument is the buffer size of \<^verbatim>\<open>listen\<close>. Once the loop has
  returned nobody receives from \<^verbatim>\<open>EventPush\<close>, so the last two change nothing then.
\<close>

datatype ('w, 'a) action = Listen 'w | Serve chan bool | Stop chan | Push "'a iface" | Close

fun step ::
  "nat \<Rightarrow> ('w, 'a) EventConfig \<Rightarrow> ('w, 'a) action \<Rightarrow> 'a system \<Rightarrow> fault + 'a system" where
  "step n config (Listen w) st =
     (case listen_buffer n config w st of
        Inl f \<Rightarrow> Inl f
      | Inr (s, c, st') \<Rightarrow>
          Inr (st'\<lparr>phase := (phase st')(c := Initial s), wire := (wire st')(c := [])\<rparr>))"
| "step n config (Serve c ok) st = serve_step c ok st"
| "step n config (Stop c) st = stop c st"
| "step n config (Push e) st = run [EventPush e] st"
| "step n config Close st = run [EventClosed] st"

fun exec ::
  "nat \<Rightarrow> ('w, 'a) EventConfig \<Rightarrow> ('w, 'a) action list \<Rightarrow> 'a system \<Rightarrow> fault + 'a system" where
  "exec n config [] st = Inr st"
| "exec n config (a # as) st =
     (case step n config a st of
        Inl f \<Rightarrow> Inl f
      | Inr st' \<Rightarrow> exec n config as st')"

section \<open>The revision of the loop in events.go\<close>

text \<open>
  \<^verbatim>\<open>events.go\<close> holds another revision of the same file. Its \<^verbatim>\<open>clientSet\<close> is the
  same; its \<^verbatim>\<open>run\<close> has a local variable \<^verbatim>\<open>state\<close>, initially \<^verbatim>\<open>struct{}{}\<close>, which
  it sends to every queue it registers and overwrites with every event it publishes.
  The loop's state is the pair of that variable and the rest.
\<close>

definition MakeEvents_events_go :: "'a iface \<times> 'a system" where
  "MakeEvents_events_go = (EmptyStruct, MakeEvents)"

fun run_select_events_go ::
  "'a msg \<Rightarrow> 'a iface \<times> 'a system \<Rightarrow> fault + ('a iface \<times> 'a system)" where
  "run_select_events_go (Register c) (state_var, st) =
     (case send c state_var (register c st) of
        Inl f \<Rightarrow> Inl f
      | Inr st' \<Rightarrow> Inr (state_var, st'))"
| "run_select_events_go (Unregister c) (state_var, st) = Inr (state_var, unregister c st)"
| "run_select_events_go (EventPush e) (state_var, st) =
     (case publish e st of
        Inl f \<Rightarrow> Inl f
      | Inr st' \<Rightarrow> Inr (e, st'))"
| "run_select_events_go EventClosed (state_var, st) =
     (case run_return st of
        Inl f \<Rightarrow> Inl f
      | Inr st' \<Rightarrow> Inr (state_var, st'))"

text \<open>Its \<^verbatim>\<open>listen\<close> returns the queue alone.\<close>

definition listen_events_go ::
  "'a iface \<times> 'a system \<Rightarrow> fault + (chan \<times> 'a iface \<times> 'a system)" where
  "listen_events_go p =
     (case make_chan EVENTS_BUFFER (snd p) of
        (eventChan, st1) \<Rightarrow>
          if \<not> running st1 then Inl (SendOnClosedChannel RegisterChan)
          else (case run_select_events_go (Register eventChan) (fst p, st1) of
                  Inl f \<Rightarrow> Inl f
                | Inr p' \<Rightarrow> Inr (eventChan, p')))"

section \<open>The invariant of the registry\<close>

text \<open>
  The keys of the map are distinct, and every registered queue is open and was handed out
  by \<^verbatim>\<open>make\<close>.
\<close>

definition registry_ok :: "'a system \<Rightarrow> bool" where
  "registry_ok st \<longleftrightarrow>
     distinct (clients st) \<and>
     (\<forall>c \<in> set (clients st). \<not> is_closed (chans st c) \<and> c < nextChan st)"

text \<open>What a successful or failed non-blocking send leaves in the queue.\<close>

definition has_room :: "'a chanbuf \<Rightarrow> bool" where
  "has_room q \<longleftrightarrow> length (items q) < capacity q"

definition offer :: "'a iface \<Rightarrow> 'a chanbuf \<Rightarrow> 'a chanbuf" where
  "offer e q = (if has_room q then q\<lparr>items := items q @ [e]\<rparr> else q\<lparr>is_closed := True\<rparr>)"

section \<open>What a subscriber sees\<close>

text \<open>
  Everything the \<^verbatim>\<open>ServeWebsocket\<close> call owning queue \<open>c\<close> has written to its
  connection, followed by what it will write if every write succeeds: the state it still
  holds, then the buffered events.
\<close>

definition observed :: "chan \<Rightarrow> 'a system \<Rightarrow> 'a iface list" where
  "observed c st =
     wire st c @ (case phase st c of Initial s \<Rightarrow> [s] | _ \<Rightarrow> []) @ items (chans st c)"

text \<open>
  The event the loop sends to queue \<open>c\<close> in one action of the program (none unless the
  loop receives an event while \<open>c\<close> is registered), and whether that send finds the
  queue full.
\<close>

definition offered :: "chan \<Rightarrow> ('w, 'a) action \<Rightarrow> 'a system \<Rightarrow> 'a iface list" where
  "offered c a st =
     (case a of
        Push e \<Rightarrow> if running st \<and> c \<in> set (clients st) then [e] else []
      | _ \<Rightarrow> [])"

definition overflows :: "chan \<Rightarrow> ('w, 'a) action \<Rightarrow> 'a system \<Rightarrow> bool" where
  "overflows c a st \<longleftrightarrow>
     offered c a st \<noteq> [] \<and> \<not> length (items (chans st c)) < capacity (chans st c)"

text \<open>
  Along a sequence of actions from a state: the events published while \<open>c\<close> is
  registered, in the order the loop receives them; and whether none of them finds the
  queue of \<open>c\<close> full.
\<close>

fun published_to ::
  "nat \<Rightarrow> ('w, 'a) EventConfig \<Rightarrow> chan \<Rightarrow> ('w, 'a) action list \<Rightarrow> 'a system \<Rightarrow> 'a iface list" where
  "published_to n config c [] st = []"
| "published_to n config c (a # as) st =
     offered c a st @
     (case step n config a st of
        Inl f \<Rightarrow> []
      | Inr st' \<Rightarrow> published_to n config c as st')"

fun never_overflows ::
  "nat \<Rightarrow> ('w, 'a) EventConfig \<Rightarrow> chan \<Rightarrow> ('w, 'a) action list \<Rightarrow> 'a system \<Rightarrow> bool" where
  "never_overflows n config c [] st = True"
| "never_overflows n config c (a # as) st =
     (\<not> overflows c a st \<and>
      (case step n config a st of
         Inl f \<Rightarrow> True
       | Inr st' \<Rightarrow> never_overflows n config c as st'))"

text \<open>
  The event the call owning queue \<open>c\<close> receives from the queue in one action of the
  program: the one its \<^verbatim>\<open>range\<close> takes when it is the call's turn and it is in its
  loop. Along a sequence of actions: all the events it has received, in order.
\<close>

definition received :: "chan \<Rightarrow> ('w, 'a) action \<Rightarrow> 'a system \<Rightarrow> 'a iface list" where
  "received c a st =
     (case a of
        Serve c' ok \<Rightarrow>
          if c' = c \<and> phase st c = Streaming
          then (case recv c st of Got e st' \<Rightarrow> [e] | _ \<Rightarrow> [])
          else []
      | _ \<Rightarrow> [])"

fun taken ::
  "nat \<Rightarrow> ('w, 'a) EventConfig \<Rightarrow> chan \<Rightarrow> ('w, 'a) action list \<Rightarrow> 'a system \<Rightarrow> 'a iface list" where
  "taken n config c [] st = []"
| "taken n config c (a # as) st =
     received c a st @
     (case step n config a st of
        Inl f \<Rightarrow> []
      | Inr st' \<Rightarrow> taken n config c as st')"

text \<open>No websocket write of the call has failed: it is not on its way to \<^verbatim>\<open>stop\<close>.\<close>

definition no_failed_write :: "'a phase \<Rightarrow> bool" where
  "no_failed_write p \<longleftrightarrow> p \<noteq> Stopping \<and> p \<noteq> Aborted"

text \<open>
  The relation kept between queue \<open>c\<close>, the state \<open>s\<close> returned by its \<^verbatim>\<open>listen\<close>,
  the events \<open>pre\<close> published to it so far, and the flag \<open>b\<close> that none of them found
  it full.
\<close>

definition tracks :: "chan \<Rightarrow> 'a iface \<Rightarrow> 'a iface list \<Rightarrow> bool \<Rightarrow> 'a system \<Rightarrow> bool" where
  "tracks c s pre b st \<longleftrightarrow>
     c < nextChan st \<and>
     phase st c \<noteq> Idle \<and>
     prefix (wire st c) (s # pre) \<and>
     (\<forall>s'. phase st c = Initial s' \<longrightarrow> s' = s \<and> wire st c = []) \<and>
     (no_failed_write (phase st c) \<longrightarrow>
        prefix (observed c st) (s # pre) \<and>
        (b \<or> c \<in> set (clients st) \<longrightarrow> observed c st = s # pre))"

text \<open>
  The same relation on the queue alone: the events \<open>got\<close> received from queue \<open>c\<close> so
  far, followed by those still in it, are the events \<open>pre\<close> published to it.
\<close>

definition queue_tracks :: "chan \<Rightarrow> 'a iface list \<Rightarrow> 'a iface list \<Rightarrow> bool \<Rightarrow> 'a system \<Rightarrow> bool" where
  "queue_tracks c pre got b st \<longleftrightarrow>
     c < nextChan st \<and>
     (b \<or> c \<in> set (clients st) \<longrightarrow> got @ items (chans st c) = pre)"

section \<open>Concrete states and configurations\<close>

text \<open>
  Two registered queues of capacity one: queue 0 is full, queue 1 is empty.
\<close>

definition two_queues :: "nat system" where
  "two_queues =
     \<lparr>clients = [0, 1],
      chans = (\<lambda>_. \<lparr>items = [], capacity = 0, is_closed = False\<rparr>)
                (0 := \<lparr>items = [Val 1], capacity = 1, is_closed = False\<rparr>,
                 1 := \<lparr>items = [], capacity = 1, is_closed = False\<rparr>),
      nextChan = 2,
      running = True,
      phase = (\<lambda>_. Idle),
      wire = (\<lambda>_. [])\<rparr>"

text \<open>The same after the event 7: queue 0 was full and has been dropped.\<close>

definition one_dropped :: "nat system" where
  "one_dropped =
     \<lparr>clients = [1],
      chans = (\<lambda>_. \<lparr>items = [], capacity = 0, is_closed = False\<rparr>)
                (0 := \<lparr>items = [Val 1], capacity = 1, is_closed = True\<rparr>,
                 1 := \<lparr>items = [Val 7], capacity = 1, is_closed = False\<rparr>),
      nextChan = 2,
      running = True,
      phase = (\<lambda>_. Idle),
      wire = (\<lambda>_. [])\<rparr>"

text \<open>A configuration without \<^verbatim>\<open>StateFunc\<close>, and one whose state is a counter.\<close>

definition no_provider :: "(unit, nat) EventConfig" where
  "no_provider = \<lparr>StateFunc = None\<rparr>"

definition counting_provider :: "(nat, nat) EventConfig" where
  "counting_provider = \<lparr>StateFunc = Some (\<lambda>w. Val w)\<rparr>"

section \<open>Lemmas on the clientSet operations\<close>

lemma send_open:
  assumes "\<not> is_closed (chans st c)"
  shows "send c e st =
           Inr (st\<lparr>chans := (chans st)(c := offer e (chans st c)),
                   clients := (if has_room (chans st c) then clients st
                               else removeAll c (clients st))\<rparr>)"
  using assms
  by (simp add: send_def drop_def close_chan_def unregister_def offer_def has_room_def)

lemma publish_range_spec:
  assumes "distinct ks"
    and "\<forall>c \<in> set ks. c \<in> set (clients st) \<longrightarrow> \<not> is_closed (chans st c)"
  shows "\<exists>st'. publish_range ks e st = Inr st' \<and>
           (\<forall>c. chans st' c = (if c \<in> set ks \<and> c \<in> set (clients st)
                                then offer e (chans st c) else chans st c)) \<and>
           clients st' = filter (\<lambda>c. \<not> (c \<in> set ks \<and> \<not> has_room (chans st c))) (clients st) \<and>
           nextChan st' = nextChan st \<and> running st' = running st \<and>
           phase st' = phase st \<and> wire st' = wire st"
  using assms
proof (induction ks arbitrary: st)
  case Nil
  then show ?case by simp
next
  case (Cons k ks)
  show ?case
  proof (cases "k \<in> set (clients st)")
    case False
    with Cons.prems have "distinct ks"
      and "\<forall>c \<in> set ks. c \<in> set (clients st) \<longrightarrow> \<not> is_closed (chans st c)" by auto
    from Cons.IH[OF this] False show ?thesis
      by (auto intro!: filter_cong)
  next
    case True
    with Cons.prems have op: "\<not> is_closed (chans st k)" by simp
    let ?st1 = "st\<lparr>chans := (chans st)(k := offer e (chans st k)),
                   clients := (if has_room (chans st k) then clients st
                               else removeAll k (clients st))\<rparr>"
    have s: "send k e st = Inr ?st1" using send_open[OF op] .
    from Cons.prems have d: "distinct ks" and nk: "k \<notin> set ks" by auto
    have "\<forall>c \<in> set ks. c \<in> set (clients ?st1) \<longrightarrow> \<not> is_closed (chans ?st1 c)"
      using Cons.prems nk by (auto split: if_splits)
    from Cons.IH[OF d this] obtain st' where
      r: "publish_range ks e ?st1 = Inr st'"
      and ch: "\<forall>c. chans st' c = (if c \<in> set ks \<and> c \<in> set (clients ?st1)
                                then offer e (chans ?st1 c) else chans ?st1 c)"
      and cl: "clients st' = filter (\<lambda>c. \<not> (c \<in> set ks \<and> \<not> has_room (chans ?st1 c))) (clients ?st1)"
      and rest: "nextChan st' = nextChan ?st1" "running st' = running ?st1"
                "phase st' = phase ?st1" "wire st' = wire ?st1"
      by blast
    have 1: "publish_range (k # ks) e st = Inr st'" using True s r by simp
    have 2: "\<forall>c. chans st' c = (if c \<in> set (k # ks) \<and> c \<in> set (clients st)
                                then offer e (chans st c) else chans st c)"
      using ch nk True by (auto split: if_splits)
    have 3: "clients st' = filter (\<lambda>c. \<not> (c \<in> set (k # ks) \<and> \<not> has_room (chans st c))) (clients st)"
      unfolding cl using nk by (auto simp: removeAll_filter_not_eq intro!: filter_cong)
    show ?thesis using 1 2 3 rest by simp
  qed
qed


lemma close_range_spec:
  assumes "distinct ks"
    and "\<forall>c \<in> set ks. c \<in> set (clients st) \<longrightarrow> \<not> is_closed (chans st c)"
  shows "\<exists>st'. close_range ks st = Inr st' \<and>
           (\<forall>c. chans st' c = (if c \<in> set ks \<and> c \<in> set (clients st)
                                then (chans st c)\<lparr>is_closed := True\<rparr> else chans st c)) \<and>
           clients st' = filter (\<lambda>c. c \<notin> set ks) (clients st) \<and>
           nextChan st' = nextChan st \<and> running st' = running st \<and>
           phase st' = phase st \<and> wire st' = wire st"
  using assms
proof (induction ks arbitrary: st)
  case Nil
  then show ?case by simp
next
  case (Cons k ks)
  show ?case
  proof (cases "k \<in> set (clients st)")
    case False
    with Cons.prems have "distinct ks"
      and "\<forall>c \<in> set ks. c \<in> set (clients st) \<longrightarrow> \<not> is_closed (chans st c)" by auto
    from Cons.IH[OF this] False show ?thesis
      by (auto intro!: filter_cong)
  next
    case True
    with Cons.prems have op: "\<not> is_closed (chans st k)" by simp
    let ?st1 = "st\<lparr>chans := (chans st)(k := (chans st k)\<lparr>is_closed := True\<rparr>),
                   clients := removeAll k (clients st)\<rparr>"
    have s: "drop k st = Inr ?st1" using op
      by (simp add: drop_def close_chan_def unregister_def)
    from Cons.prems have d: "distinct ks" and nk: "k \<notin> set ks" by auto
    have "\<forall>c \<in> set ks. c \<in> set (clients ?st1) \<longrightarrow> \<not> is_closed (chans ?st1 c)"
      using Cons.prems nk by (auto split: if_splits)
    from Cons.IH[OF d this] obtain st' where
      r: "close_range ks ?st1 = Inr st'"
      and ch: "\<forall>c. chans st' c = (if c \<in> set ks \<and> c \<in> set (clients ?st1)
                                then (chans ?st1 c)\<lparr>is_closed := True\<rparr> else chans ?st1 c)"
      and cl: "clients st' = filter (\<lambda>c. c \<notin> set ks) (clients ?st1)"
      and rest: "nextChan st' = nextChan ?st1" "running st' = running ?st1"
                "phase st' = phase ?st1" "wire st' = wire ?st1"
      by blast
    have 1: "close_range (k # ks) st = Inr st'" using True s r by simp
    have 2: "\<forall>c. chans st' c = (if c \<in> set (k # ks) \<and> c \<in> set (clients st)
                                then (chans st c)\<lparr>is_closed := True\<rparr> else chans st c)"
      using ch nk True by (auto split: if_splits)
    have 3: "clients st' = filter (\<lambda>c. c \<notin> set (k # ks)) (clients st)"
      unfolding cl using nk by (auto simp: removeAll_filter_not_eq intro!: filter_cong)
    show ?thesis using 1 2 3 rest by simp
  qed
qed

lemma publish_spec:
  assumes "registry_ok st"
  shows "\<exists>st'. publish e st = Inr st' \<and>
           (\<forall>c. chans st' c = (if c \<in> set (clients st)
                                then offer e (chans st c) else chans st c)) \<and>
           clients st' = filter (\<lambda>c. has_room (chans st c)) (clients st) \<and>
           nextChan st' = nextChan st \<and> running st' = running st \<and>
           phase st' = phase st \<and> wire st' = wire st"
proof -
  from assms have d: "distinct (clients st)"
    and o: "\<forall>c \<in> set (clients st). c \<in> set (clients st) \<longrightarrow> \<not> is_closed (chans st c)"
    by (auto simp: registry_ok_def)
  have f: "filter (\<lambda>c. \<not> (c \<in> set (clients st) \<and> \<not> has_room (chans st c))) (clients st)
           = filter (\<lambda>c. has_room (chans st c)) (clients st)"
    by (auto intro!: filter_cong)
  from publish_range_spec[OF d o, of e] show ?thesis
    unfolding publish_def f by auto
qed

lemma run_return_spec:
  assumes "registry_ok st"
  shows "\<exists>st'. run_return st = Inr st' \<and>
           (\<forall>c. chans st' c = (if c \<in> set (clients st)
                                then (chans st c)\<lparr>is_closed := True\<rparr> else chans st c)) \<and>
           clients st' = [] \<and>
           nextChan st' = nextChan st \<and> \<not> running st' \<and>
           phase st' = phase st \<and> wire st' = wire st"
proof -
  let ?s = "st\<lparr>running := False\<rparr>"
  from assms have d: "distinct (clients ?s)"
    and o: "\<forall>c \<in> set (clients ?s). c \<in> set (clients ?s) \<longrightarrow> \<not> is_closed (chans ?s c)"
    by (auto simp: registry_ok_def)
  have f: "filter (\<lambda>c. c \<notin> set (clients ?s)) (clients ?s) = []"
    by (simp add: filter_empty_conv)
  from close_range_spec[OF d o] show ?thesis
    unfolding run_return_def close_clients_def f by auto
qed

lemma registry_ok_publish:
  assumes "registry_ok st" and "publish e st = Inr st'"
  shows "registry_ok st'"
proof -
  from publish_spec[OF assms(1), of e] assms(2)
  have ch: "\<forall>c. chans st' c = (if c \<in> set (clients st) then offer e (chans st c) else chans st c)"
    and cl: "clients st' = filter (\<lambda>c. has_room (chans st c)) (clients st)"
    and nx: "nextChan st' = nextChan st" by auto
  show ?thesis using assms(1)
    unfolding registry_ok_def ch[rule_format] cl nx
    by (auto simp: offer_def)
qed

lemma registry_ok_run_return:
  assumes "registry_ok st" and "run_return st = Inr st'"
  shows "registry_ok st'"
  using run_return_spec[OF assms(1)] assms(2) by (auto simp: registry_ok_def)

lemma registry_ok_unregister: "registry_ok st \<Longrightarrow> registry_ok (unregister c st)"
  by (auto simp: registry_ok_def unregister_def distinct_removeAll)

lemma registry_ok_MakeEvents: "registry_ok MakeEvents"
  by (simp add: registry_ok_def MakeEvents_def)

text \<open>
  Go leaves the order in which \<^verbatim>\<open>range\<close> visits a map unspecified. The two loops
  over the registry give the same state whatever the order.
\<close>

lemma publish_range_any_order:
  assumes ok: "registry_ok st" and d: "distinct ks" and s: "set ks = set (clients st)"
  shows "publish_range ks e st = publish e st"
proof -
  from ok have d0: "distinct (clients st)"
    and o0: "\<forall>c \<in> set (clients st). c \<in> set (clients st) \<longrightarrow> \<not> is_closed (chans st c)"
    by (auto simp: registry_ok_def)
  from o0 s have o: "\<forall>c \<in> set ks. c \<in> set (clients st) \<longrightarrow> \<not> is_closed (chans st c)"
    by simp
  from publish_range_spec[OF d o, of e] obtain a where
    a: "publish_range ks e st = Inr a"
    and a1: "\<forall>c. chans a c = (if c \<in> set ks \<and> c \<in> set (clients st)
                                then offer e (chans st c) else chans st c)"
    and a2: "clients a = filter (\<lambda>c. \<not> (c \<in> set ks \<and> \<not> has_room (chans st c))) (clients st)"
    and a3: "nextChan a = nextChan st" "running a = running st"
            "phase a = phase st" "wire a = wire st"
    by blast
  from publish_range_spec[OF d0 o0, of e] obtain b where
    b: "publish_range (clients st) e st = Inr b"
    and b1: "\<forall>c. chans b c = (if c \<in> set (clients st) \<and> c \<in> set (clients st)
                                then offer e (chans st c) else chans st c)"
    and b2: "clients b = filter (\<lambda>c. \<not> (c \<in> set (clients st) \<and> \<not> has_room (chans st c))) (clients st)"
    and b3: "nextChan b = nextChan st" "running b = running st"
            "phase b = phase st" "wire b = wire st"
    by blast
  have "chans a = chans b"
  proof
    fix c show "chans a c = chans b c" using a1 b1 s by simp
  qed
  moreover have "clients a = clients b" using a2 b2 s by simp
  moreover have "system.more a = system.more b" by simp
  ultimately have "a = b" using a3 b3 by (intro system.equality) simp_all
  then show ?thesis using a b by (simp add: publish_def)
qed

lemma close_range_any_order:
  assumes ok: "registry_ok st" and d: "distinct ks" and s: "set ks = set (clients st)"
  shows "close_range ks st = close_clients st"
proof -
  from ok have d0: "distinct (clients st)"
    and o0: "\<forall>c \<in> set (clients st). c \<in> set (clients st) \<longrightarrow> \<not> is_closed (chans st c)"
    by (auto simp: registry_ok_def)
  from o0 s have o: "\<forall>c \<in> set ks. c \<in> set (clients st) \<longrightarrow> \<not> is_closed (chans st c)"
    by simp
  from close_range_spec[OF d o] obtain a where
    a: "close_range ks st = Inr a"
    and a1: "\<forall>c. chans a c = (if c \<in> set ks \<and> c \<in> set (clients st)
                                then (chans st c)\<lparr>is_closed := True\<rparr> else chans st c)"
    and a2: "clients a = filter (\<lambda>c. c \<notin> set ks) (clients st)"
    and a3: "nextChan a = nextChan st" "running a = running st"
            "phase a = phase st" "wire a = wire st"
    by blast
  from close_range_spec[OF d0 o0] obtain b where
    b: "close_range (clients st) st = Inr b"
    and b1: "\<forall>c. chans b c = (if c \<in> set (clients st) \<and> c \<in> set (clients st)
                                then (chans st c)\<lparr>is_closed := True\<rparr> else chans st c)"
    and b2: "clients b = filter (\<lambda>c. c \<notin> set (clients st)) (clients st)"
    and b3: "nextChan b = nextChan st" "running b = running st"
            "phase b = phase st" "wire b = wire st"
    by blast
  have "chans a = chans b"
  proof
    fix c show "chans a c = chans b c" using a1 b1 s by simp
  qed
  moreover have "clients a = clients b" using a2 b2 s by simp
  moreover have "system.more a = system.more b" by simp
  ultimately have "a = b" using a3 b3 by (intro system.equality) simp_all
  then show ?thesis using a b by (simp add: close_clients_def)
qed

section \<open>Lemmas on the steps of the program\<close>

lemma observed_cong:
  "phase st' c = phase st c \<Longrightarrow> wire st' c = wire st c \<Longrightarrow> chans st' c = chans st c \<Longrightarrow>
   observed c st' = observed c st"
  by (simp add: observed_def)

lemma listen_buffer_spec:
  assumes "running st"
  shows "listen_buffer n config w st =
           Inr (state config w, nextChan st,
                st\<lparr>chans := (chans st)(nextChan st := \<lparr>items = [], capacity = n, is_closed = False\<rparr>),
                   nextChan := Suc (nextChan st),
                   clients := List.insert (nextChan st) (clients st)\<rparr>)"
  using assms by (simp add: listen_buffer_def make_chan_def register_def)

lemma listen_buffer_stopped:
  "\<not> running st \<Longrightarrow> listen_buffer n config w st = Inl (SendOnClosedChannel RegisterChan)"
  by (simp add: listen_buffer_def make_chan_def)

lemma step_Listen_spec:
  assumes "step n config (Listen w) st = Inr st'"
  shows "running st \<and>
         st' = st\<lparr>chans := (chans st)(nextChan st := \<lparr>items = [], capacity = n, is_closed = False\<rparr>),
                  nextChan := Suc (nextChan st),
                  clients := List.insert (nextChan st) (clients st),
                  phase := (phase st)(nextChan st := Initial (state config w)),
                  wire := (wire st)(nextChan st := [])\<rparr>"
proof (cases "running st")
  case True
  then show ?thesis using assms by (simp add: listen_buffer_spec)
next
  case False
  then show ?thesis using assms by (simp add: listen_buffer_stopped)
qed

lemma tracks_Listen_new:
  assumes "step n config (Listen w) st = Inr st'"
  shows "tracks (nextChan st) (state config w) [] True st'"
  using step_Listen_spec[OF assms]
  by (simp add: tracks_def observed_def)

lemma tracks_Listen_other:
  assumes "tracks c s pre b st" and "step n config (Listen w) st = Inr st'"
  shows "tracks c s pre b st'"
proof -
  from assms(1) have lt: "c < nextChan st" by (simp add: tracks_def)
  then have ne: "c \<noteq> nextChan st" by simp
  note sp = step_Listen_spec[OF assms(2)]
  have eq: "phase st' c = phase st c" "wire st' c = wire st c" "chans st' c = chans st c"
    "c \<in> set (clients st') \<longleftrightarrow> c \<in> set (clients st)" "c < nextChan st'"
    using sp ne lt by auto
  from eq(1-3) have "observed c st' = observed c st" by (rule observed_cong)
  then show ?thesis using assms(1) eq by (simp add: tracks_def)
qed

lemma serve_step_other:
  assumes "serve_step c' ok st = Inr st'" and "c' \<noteq> c"
  shows "phase st' c = phase st c \<and> wire st' c = wire st c \<and> chans st' c = chans st c \<and>
    (c \<in> set (clients st') \<longleftrightarrow> c \<in> set (clients st)) \<and> nextChan st' = nextChan st"
proof (cases "phase st c'")
  case Streaming
  then show ?thesis using assms
    by (cases "items (chans st c')") (auto simp: serve_step_def recv_def split: if_splits)
next
  case Stopping
  then show ?thesis using assms
    by (auto simp: serve_step_def stop_def unregister_def split: if_splits)
qed (use assms in \<open>auto simp: serve_step_def split: if_splits\<close>)

lemma tracks_serve_other:
  assumes "tracks c s pre b st" and "serve_step c' ok st = Inr st'" and "c' \<noteq> c"
  shows "tracks c s pre b st'"
proof -
  note eq = serve_step_other[OF assms(2,3)]
  then have "observed c st' = observed c st" by (intro observed_cong) simp_all
  then show ?thesis using assms(1) eq by (simp add: tracks_def)
qed

lemma prefix_Cons_append: "prefix xs (s # pre) \<Longrightarrow> prefix xs (s # pre @ ys)"
  using prefix_prefix[of xs "s # pre" ys] by simp

lemma prefix_snoc_of_Cons: "prefix (xs @ y # ys) zs \<Longrightarrow> prefix (xs @ [y]) zs"
  using append_prefixD[of "xs @ [y]" ys zs] by simp

lemma tracks_serve_same:
  assumes t: "tracks c s pre b st" and sv: "serve_step c ok st = Inr st'"
  shows "tracks c s pre b st'"
proof -
  from t have lt: "c < nextChan st" and ni: "phase st c \<noteq> Idle"
    and pw: "prefix (wire st c) (s # pre)"
    and ini: "\<forall>s'. phase st c = Initial s' \<longrightarrow> s' = s \<and> wire st c = []"
    and ll: "no_failed_write (phase st c) \<longrightarrow>
        prefix (observed c st) (s # pre) \<and>
        (b \<or> c \<in> set (clients st) \<longrightarrow> observed c st = s # pre)"
    by (simp_all add: tracks_def)
  show ?thesis
  proof (cases "phase st c")
    case Idle
    then show ?thesis using ni by simp
  next
    case (Initial s')
    with ini have s': "s' = s" and w: "wire st c = []" by simp_all
    from Initial ll have po: "prefix (s # items (chans st c)) (s # pre)"
      and eo: "b \<or> c \<in> set (clients st) \<longrightarrow> s # items (chans st c) = s # pre"
      by (simp_all add: observed_def no_failed_write_def w s')
    show ?thesis
    proof (cases ok)
      case True
      with sv Initial s' w
      have st': "st' = st\<lparr>wire := (wire st)(c := [s]), phase := (phase st)(c := Streaming)\<rparr>"
        by (simp add: serve_step_def)
      show ?thesis using lt po eo
        by (simp add: tracks_def st' observed_def no_failed_write_def)
    next
      case False
      with sv Initial have st': "st' = st\<lparr>phase := (phase st)(c := Stopping)\<rparr>"
        by (simp add: serve_step_def)
      show ?thesis using lt pw by (simp add: tracks_def st' no_failed_write_def)
    qed
  next
    case Streaming
    from Streaming ll have po: "prefix (wire st c @ items (chans st c)) (s # pre)"
      and eo: "b \<or> c \<in> set (clients st) \<longrightarrow> wire st c @ items (chans st c) = s # pre"
      by (simp_all add: observed_def no_failed_write_def)
    show ?thesis
    proof (cases "items (chans st c)")
      case Nil
      show ?thesis
      proof (cases "is_closed (chans st c)")
        case True
        with sv Streaming Nil have st': "st' = st\<lparr>phase := (phase st)(c := Finished)\<rparr>"
          by (simp add: serve_step_def recv_def)
        show ?thesis using lt pw po eo Nil
          by (simp add: tracks_def st' observed_def no_failed_write_def)
      next
        case False
        with sv Streaming Nil have "st' = st" by (simp add: serve_step_def recv_def)
        then show ?thesis using t by simp
      qed
    next
      case (Cons e es)
      from po Cons have pe: "prefix (wire st c @ [e]) (s # pre)"
        by (simp add: prefix_snoc_of_Cons)
      show ?thesis
      proof (cases ok)
        case True
        with sv Streaming Cons
        have st': "st' = st\<lparr>chans := (chans st)(c := (chans st c)\<lparr>items := es\<rparr>),
                           wire := (wire st)(c := wire st c @ [e])\<rparr>"
          by (simp add: serve_step_def recv_def)
        show ?thesis using lt pe po eo Cons Streaming
          by (simp add: tracks_def st' observed_def no_failed_write_def)
      next
        case False
        with sv Streaming Cons
        have st': "st' = st\<lparr>chans := (chans st)(c := (chans st c)\<lparr>items := es\<rparr>),
                           phase := (phase st)(c := Stopping)\<rparr>"
          by (simp add: serve_step_def recv_def)
        show ?thesis using lt pw by (simp add: tracks_def st' no_failed_write_def)
      qed
    qed
  next
    case Stopping
    with sv have r: "running st" and st': "st' = (unregister c st)\<lparr>phase := (phase st)(c := Aborted)\<rparr>"
      by (auto simp: serve_step_def stop_def unregister_def split: if_splits)
    show ?thesis using lt pw by (simp add: tracks_def st' unregister_def no_failed_write_def)
  next
    case Aborted
    with sv have "st' = st" by (simp add: serve_step_def)
    then show ?thesis using t by simp
  next
    case Finished
    with sv have "st' = st" by (simp add: serve_step_def)
    then show ?thesis using t by simp
  qed
qed

lemma tracks_publish:
  assumes ok: "registry_ok st" and t: "tracks c s pre b st" and p: "publish e st = Inr st'"
  shows "tracks c s (pre @ (if c \<in> set (clients st) then [e] else []))
           (b \<and> (c \<in> set (clients st) \<longrightarrow> length (items (chans st c)) < capacity (chans st c))) st'"
proof -
  from t have lt: "c < nextChan st" and ni: "phase st c \<noteq> Idle"
    and pw: "prefix (wire st c) (s # pre)"
    and ini: "\<forall>s'. phase st c = Initial s' \<longrightarrow> s' = s \<and> wire st c = []"
    and ll: "no_failed_write (phase st c) \<longrightarrow>
        prefix (observed c st) (s # pre) \<and>
        (b \<or> c \<in> set (clients st) \<longrightarrow> observed c st = s # pre)"
    by (simp_all add: tracks_def)
  from publish_spec[OF ok, of e] p
  have ch: "chans st' c = (if c \<in> set (clients st) then offer e (chans st c) else chans st c)"
    and cl: "clients st' = filter (\<lambda>c. has_room (chans st c)) (clients st)"
    and rest: "nextChan st' = nextChan st" "phase st' = phase st" "wire st' = wire st"
    by auto
  show ?thesis
  proof (cases "c \<in> set (clients st)")
    case False
    then have "observed c st' = observed c st" using ch rest by (simp add: observed_def)
    moreover have "c \<notin> set (clients st')" using False cl by simp
    ultimately show ?thesis using t False rest by (simp add: tracks_def)
  next
    case True
    have pw': "prefix (wire st c) (s # pre @ [e])" using pw by (rule prefix_Cons_append)
    show ?thesis
    proof (cases "has_room (chans st c)")
      case room: True
      have o: "observed c st' = observed c st @ [e]"
        using ch rest True room by (simp add: observed_def offer_def)
      have c': "c \<in> set (clients st')" using True room cl by simp
      from ll True have "no_failed_write (phase st c) \<longrightarrow> observed c st = s # pre" by simp
      then have "no_failed_write (phase st c) \<longrightarrow> observed c st' = s # pre @ [e]" using o by simp
      then show ?thesis using True lt ni pw' ini rest
        by (simp add: tracks_def)
    next
      case full: False
      have o: "observed c st' = observed c st"
        using ch rest True full by (simp add: observed_def offer_def)
      have c': "c \<notin> set (clients st')" using full cl by simp
      from full have nb: "\<not> length (items (chans st c)) < capacity (chans st c)"
        by (simp add: has_room_def)
      from ll have "no_failed_write (phase st c) \<longrightarrow> prefix (observed c st') (s # pre @ [e])"
        using o by (simp add: prefix_Cons_append)
      then show ?thesis using True lt ni pw' ini rest c' nb
        by (simp add: tracks_def)
    qed
  qed
qed

lemma tracks_run_return:
  assumes ok: "registry_ok st" and t: "tracks c s pre b st" and p: "run_return st = Inr st'"
  shows "tracks c s pre b st'"
proof -
  from run_return_spec[OF ok] p
  have ch: "chans st' c = (if c \<in> set (clients st)
                                then (chans st c)\<lparr>is_closed := True\<rparr> else chans st c)"
    and cl: "clients st' = []"
    and rest: "nextChan st' = nextChan st" "phase st' = phase st" "wire st' = wire st"
    by auto
  have "observed c st' = observed c st" using ch rest by (simp add: observed_def)
  then show ?thesis using t rest cl by (simp add: tracks_def)
qed

lemma serve_step_frame:
  assumes "serve_step c' ok st = Inr st'"
  shows "nextChan st' = nextChan st \<and> running st' = running st \<and>
         is_closed (chans st' c) = is_closed (chans st c) \<and>
         suffix (items (chans st' c)) (items (chans st c)) \<and>
         (clients st' = clients st \<or> clients st' = removeAll c' (clients st))"
proof (cases "phase st c'")
  case Streaming
  then show ?thesis using assms
    by (cases "items (chans st c')")
       (auto simp: serve_step_def recv_def suffix_Cons split: if_splits)
next
  case Stopping
  then show ?thesis using assms
    by (auto simp: serve_step_def stop_def unregister_def split: if_splits)
qed (use assms in \<open>auto simp: serve_step_def split: if_splits\<close>)

lemma registry_ok_serve_step:
  assumes "registry_ok st" and "serve_step c' ok st = Inr st'"
  shows "registry_ok st'"
proof -
  have fr: "nextChan st' = nextChan st"
    "\<And>c. is_closed (chans st' c) = is_closed (chans st c)"
    "clients st' = clients st \<or> clients st' = removeAll c' (clients st)"
    using serve_step_frame[OF assms(2)] by auto
  from fr(3) show ?thesis
  proof
    assume "clients st' = clients st"
    then show ?thesis using assms(1) fr(1,2) by (simp add: registry_ok_def)
  next
    assume "clients st' = removeAll c' (clients st)"
    then show ?thesis using assms(1) fr(1,2) by (simp add: registry_ok_def distinct_removeAll)
  qed
qed

lemma step_Stop_spec:
  assumes "step n config (Stop c) st = Inr st'"
  shows "running st \<and> st' = unregister c st"
  using assms by (cases "running st") (simp_all add: stop_def)

lemma tracks_unregister:
  assumes "tracks c s pre b st"
  shows "tracks c s pre b (unregister c' st)"
proof -
  have "observed c (unregister c' st) = observed c st"
    by (simp add: observed_def unregister_def)
  moreover have "c \<in> set (clients (unregister c' st)) \<longrightarrow> c \<in> set (clients st)"
    by (simp add: unregister_def)
  moreover have "nextChan (unregister c' st) = nextChan st" "phase (unregister c' st) = phase st"
    "wire (unregister c' st) = wire st"
    by (simp_all add: unregister_def)
  ultimately show ?thesis using assms unfolding tracks_def by auto
qed

lemma step_Push_cases:
  assumes "step n config (Push e) st = Inr st'"
  shows "(running st \<and> publish e st = Inr st') \<or> (\<not> running st \<and> st' = st)"
  using assms by (cases "running st") (auto split: sum.splits)

lemma step_Close_cases:
  assumes "step n config Close st = Inr st'"
  shows "(running st \<and> run_return st = Inr st') \<or> (\<not> running st \<and> st' = st)"
  using assms by (cases "running st") (auto split: sum.splits)

lemma registry_ok_step:
  assumes ok: "registry_ok st" and s: "step n config a st = Inr st'"
  shows "registry_ok st'"
proof (cases a)
  case (Listen w)
  from step_Listen_spec[OF s[unfolded Listen]] ok show ?thesis
    by (auto simp: registry_ok_def less_Suc_eq)
next
  case (Serve c ok')
  with s ok show ?thesis by (simp add: registry_ok_serve_step)
next
  case (Stop c)
  from step_Stop_spec[OF s[unfolded Stop]] ok show ?thesis
    by (simp add: registry_ok_unregister)
next
  case (Push e)
  with step_Push_cases[of n config e st st'] s ok show ?thesis
    by (auto intro: registry_ok_publish)
next
  case Close
  with step_Close_cases[of n config st st'] s ok show ?thesis
    by (auto intro: registry_ok_run_return)
qed

lemma step_fault:
  assumes ok: "registry_ok st" and s: "step n config a st = Inl f"
  shows "f = SendOnClosedChannel RegisterChan \<or> f = SendOnClosedChannel UnregisterChan"
proof (cases a)
  case (Listen w)
  show ?thesis
  proof (cases "running st")
    case True
    then show ?thesis using s Listen by (simp add: listen_buffer_spec)
  next
    case False
    then show ?thesis using s Listen by (simp add: listen_buffer_stopped)
  qed
next
  case (Serve c ok')
  show ?thesis
  proof (cases "phase st c")
    case Streaming
    then show ?thesis using s Serve
      by (cases "items (chans st c)") (auto simp: serve_step_def recv_def split: if_splits)
  next
    case Stopping
    then show ?thesis using s Serve
      by (auto simp: serve_step_def stop_def split: if_splits)
  qed (use s Serve in \<open>auto simp: serve_step_def split: if_splits\<close>)
next
  case (Stop c)
  then show ?thesis using s by (cases "running st") (simp_all add: stop_def)
next
  case (Push e)
  from publish_spec[OF ok, of e] obtain st' where "publish e st = Inr st'" by blast
  then show ?thesis using s Push by (cases "running st") simp_all
next
  case Close
  from run_return_spec[OF ok] obtain st' where "run_return st = Inr st'" by blast
  then show ?thesis using s Close by (cases "running st") simp_all
qed

lemma tracks_step:
  assumes ok: "registry_ok st" and t: "tracks c s pre b st" and s: "step n config a st = Inr st'"
  shows "tracks c s (pre @ offered c a st) (b \<and> \<not> overflows c a st) st'"
proof (cases a)
  case (Listen w)
  from tracks_Listen_other[OF t s[unfolded Listen]] show ?thesis
    by (simp add: Listen offered_def overflows_def)
next
  case (Serve c' ok')
  with s have sv: "serve_step c' ok' st = Inr st'" by simp
  have "tracks c s pre b st'"
  proof (cases "c' = c")
    case True
    with sv t show ?thesis by (simp add: tracks_serve_same[of c s pre b st ok' st'])
  next
    case False
    from tracks_serve_other[OF t sv False] show ?thesis .
  qed
  then show ?thesis by (simp add: Serve offered_def overflows_def)
next
  case (Stop c')
  from step_Stop_spec[OF s[unfolded Stop]] tracks_unregister[OF t, of c'] show ?thesis
    by (simp add: Stop offered_def overflows_def)
next
  case (Push e)
  from step_Push_cases[OF s[unfolded Push]] show ?thesis
  proof
    assume a: "running st \<and> publish e st = Inr st'"
    from tracks_publish[OF ok t, of e st'] a show ?thesis
      by (cases "c \<in> set (clients st)") (simp_all add: Push offered_def overflows_def)
  next
    assume "\<not> running st \<and> st' = st"
    then show ?thesis using t by (simp add: Push offered_def overflows_def)
  qed
next
  case Close
  from step_Close_cases[OF s[unfolded Close]] show ?thesis
  proof
    assume a: "running st \<and> run_return st = Inr st'"
    from tracks_run_return[OF ok t, of st'] a show ?thesis
      by (simp add: Close offered_def overflows_def)
  next
    assume "\<not> running st \<and> st' = st"
    then show ?thesis using t by (simp add: Close offered_def overflows_def)
  qed
qed

lemma serve_step_same_queue:
  assumes "serve_step c ok st = Inr st'"
  shows "received c (Serve c ok) st @ items (chans st' c) = items (chans st c) \<and>
         (c \<in> set (clients st') \<longrightarrow> c \<in> set (clients st)) \<and>
         nextChan st' = nextChan st"
proof (cases "phase st c")
  case Streaming
  show ?thesis
  proof (cases "items (chans st c)")
    case Nil
    then show ?thesis using assms Streaming
      by (cases "is_closed (chans st c)") (auto simp: serve_step_def recv_def received_def)
  next
    case (Cons e es)
    then show ?thesis using assms Streaming
      by (cases ok) (auto simp: serve_step_def recv_def received_def)
  qed
next
  case Stopping
  then show ?thesis using assms
    by (auto simp: serve_step_def stop_def unregister_def received_def split: if_splits)
qed (use assms in \<open>auto simp: serve_step_def received_def split: if_splits\<close>)

lemma queue_tracks_step:
  assumes ok: "registry_ok st" and t: "queue_tracks c pre got b st"
    and s: "step n config a st = Inr st'"
  shows "queue_tracks c (pre @ offered c a st) (got @ received c a st)
           (b \<and> \<not> overflows c a st) st'"
proof -
  from t have lt: "c < nextChan st"
    and eq: "b \<or> c \<in> set (clients st) \<longrightarrow> got @ items (chans st c) = pre"
    by (simp_all add: queue_tracks_def)
  show ?thesis
  proof (cases a)
    case (Listen w)
    from lt have ne: "c \<noteq> nextChan st" by simp
    note sp = step_Listen_spec[OF s[unfolded Listen]]
    have "chans st' c = chans st c" "c \<in> set (clients st') \<longleftrightarrow> c \<in> set (clients st)"
      "c < nextChan st'"
      using sp ne lt by auto
    then show ?thesis using eq
      by (simp add: queue_tracks_def Listen offered_def overflows_def received_def)
  next
    case (Serve c' ok')
    with s have sv: "serve_step c' ok' st = Inr st'" by simp
    show ?thesis
    proof (cases "c' = c")
      case True
      from serve_step_same_queue[OF sv[unfolded True]]
      have r: "received c (Serve c ok') st @ items (chans st' c) = items (chans st c)"
        and m: "c \<in> set (clients st') \<longrightarrow> c \<in> set (clients st)"
        and nx: "nextChan st' = nextChan st" by blast+
      have "b \<or> c \<in> set (clients st') \<longrightarrow>
              (got @ received c (Serve c ok') st) @ items (chans st' c) = pre"
        using eq m r by auto
      then show ?thesis using lt nx
        by (simp add: queue_tracks_def Serve True offered_def overflows_def)
    next
      case False
      from serve_step_other[OF sv False]
      have "chans st' c = chans st c" "c \<in> set (clients st') \<longleftrightarrow> c \<in> set (clients st)"
        "nextChan st' = nextChan st" by simp_all
      then show ?thesis using eq lt False
        by (simp add: queue_tracks_def Serve offered_def overflows_def received_def)
    qed
  next
    case (Stop c')
    from step_Stop_spec[OF s[unfolded Stop]] have st': "st' = unregister c' st" by simp
    have "c \<in> set (clients st') \<longrightarrow> c \<in> set (clients st)"
      by (simp add: st' unregister_def)
    then show ?thesis using eq lt
      by (auto simp: queue_tracks_def Stop offered_def overflows_def received_def st' unregister_def)
  next
    case (Push e)
    from step_Push_cases[OF s[unfolded Push]] show ?thesis
    proof
      assume a: "running st \<and> publish e st = Inr st'"
      from publish_spec[OF ok, of e] a
      have ch: "chans st' c = (if c \<in> set (clients st) then offer e (chans st c) else chans st c)"
        and cl: "clients st' = filter (\<lambda>c. has_room (chans st c)) (clients st)"
        and nx: "nextChan st' = nextChan st"
        by auto
      show ?thesis
      proof (cases "c \<in> set (clients st)")
        case False
        then have "chans st' c = chans st c" "c \<notin> set (clients st')" using ch cl by simp_all
        then show ?thesis using eq lt nx False
          by (simp add: queue_tracks_def Push offered_def overflows_def received_def)
      next
        case True
        with eq have e0: "got @ items (chans st c) = pre" by simp
        show ?thesis
        proof (cases "has_room (chans st c)")
          case room: True
          then have "items (chans st' c) = items (chans st c) @ [e]"
            using ch True by (simp add: offer_def)
          then show ?thesis using e0 lt nx True a
            by (simp add: queue_tracks_def Push offered_def overflows_def received_def)
        next
          case full: False
          then have "c \<notin> set (clients st')" using cl by simp
          moreover from full have "\<not> length (items (chans st c)) < capacity (chans st c)"
            by (simp add: has_room_def)
          ultimately show ?thesis using lt nx True a
            by (simp add: queue_tracks_def Push offered_def overflows_def received_def)
        qed
      qed
    next
      assume "\<not> running st \<and> st' = st"
      then show ?thesis using t
        by (simp add: Push offered_def overflows_def received_def)
    qed
  next
    case Close
    from step_Close_cases[OF s[unfolded Close]] show ?thesis
    proof
      assume a: "running st \<and> run_return st = Inr st'"
      from run_return_spec[OF ok] a
      have ch: "chans st' c = (if c \<in> set (clients st)
                                then (chans st c)\<lparr>is_closed := True\<rparr> else chans st c)"
        and cl: "clients st' = []" and nx: "nextChan st' = nextChan st"
        by auto
      have "items (chans st' c) = items (chans st c)" using ch by simp
      then show ?thesis using eq lt nx cl
        by (simp add: queue_tracks_def Close offered_def overflows_def received_def)
    next
      assume "\<not> running st \<and> st' = st"
      then show ?thesis using t
        by (simp add: Close offered_def overflows_def received_def)
    qed
  qed
qed

lemma queue_tracks_exec:
  "registry_ok st \<Longrightarrow> queue_tracks c pre got b st \<Longrightarrow> exec n config acts st = Inr st' \<Longrightarrow>
   queue_tracks c (pre @ published_to n config c acts st) (got @ taken n config c acts st)
     (b \<and> never_overflows n config c acts st) st'"
proof (induction acts arbitrary: st pre got b)
  case Nil
  then show ?case by simp
next
  case (Cons a acts)
  from Cons.prems(3) obtain st1 where s: "step n config a st = Inr st1"
    and e: "exec n config acts st1 = Inr st'"
    by (auto split: sum.splits)
  note ok1 = registry_ok_step[OF Cons.prems(1) s]
  note t1 = queue_tracks_step[OF Cons.prems(1,2) s]
  from Cons.IH[OF ok1 t1 e] show ?case using s by (simp add: conj_assoc)
qed

lemma queue_tracks_Listen_new:
  assumes "step n config (Listen w) st = Inr st'"
  shows "queue_tracks (nextChan st) [] [] True st'"
  using step_Listen_spec[OF assms] by (simp add: queue_tracks_def)

lemma registry_ok_exec:
  "registry_ok st \<Longrightarrow> exec n config acts st = Inr st' \<Longrightarrow> registry_ok st'"
proof (induction acts arbitrary: st)
  case Nil
  then show ?case by simp
next
  case (Cons a acts)
  from Cons.prems(2) obtain st1 where s: "step n config a st = Inr st1"
    and e: "exec n config acts st1 = Inr st'"
    by (auto split: sum.splits)
  from registry_ok_step[OF Cons.prems(1) s] e show ?case by (rule Cons.IH)
qed

lemma tracks_exec:
  "registry_ok st \<Longrightarrow> tracks c s pre b st \<Longrightarrow> exec n config acts st = Inr st' \<Longrightarrow>
   tracks c s (pre @ published_to n config c acts st) (b \<and> never_overflows n config c acts st) st'"
proof (induction acts arbitrary: st pre b)
  case Nil
  then show ?case by simp
next
  case (Cons a acts)
  from Cons.prems(3) obtain st1 where s: "step n config a st = Inr st1"
    and e: "exec n config acts st1 = Inr st'"
    by (auto split: sum.splits)
  note ok1 = registry_ok_step[OF Cons.prems(1) s]
  note t1 = tracks_step[OF Cons.prems(1,2) s]
  from Cons.IH[OF ok1 t1 e] show ?case using s by (simp add: conj_assoc)
qed

lemma closed_step:
  assumes ok: "registry_ok st" and cl: "is_closed (chans st c)" and lt: "c < nextChan st"
    and s: "step n config a st = Inr st'"
  shows "is_closed (chans st' c) \<and> c < nextChan st' \<and>
         suffix (items (chans st' c)) (items (chans st c))"
proof -
  from ok cl have nc: "c \<notin> set (clients st)" by (auto simp: registry_ok_def)
  show ?thesis
  proof (cases a)
    case (Listen w)
    from step_Listen_spec[OF s[unfolded Listen]] lt cl show ?thesis by auto
  next
    case (Serve c' ok')
    with s have "serve_step c' ok' st = Inr st'" by simp
    from serve_step_frame[OF this, of c] cl lt show ?thesis by simp
  next
    case (Stop c')
    from step_Stop_spec[OF s[unfolded Stop]] cl lt show ?thesis
      by (simp add: unregister_def)
  next
    case (Push e)
    from step_Push_cases[OF s[unfolded Push]] show ?thesis
    proof
      assume a: "running st \<and> publish e st = Inr st'"
      with publish_spec[OF ok, of e] nc
      have "chans st' c = chans st c" "nextChan st' = nextChan st" by auto
      then show ?thesis using cl lt by simp
    next
      assume "\<not> running st \<and> st' = st"
      then show ?thesis using cl lt by simp
    qed
  next
    case Close
    from step_Close_cases[OF s[unfolded Close]] show ?thesis
    proof
      assume a: "running st \<and> run_return st = Inr st'"
      with run_return_spec[OF ok] nc
      have "chans st' c = chans st c" "nextChan st' = nextChan st" by auto
      then show ?thesis using cl lt by simp
    next
      assume "\<not> running st \<and> st' = st"
      then show ?thesis using cl lt by simp
    qed
  qed
qed

lemma closed_exec:
  "registry_ok st \<Longrightarrow> is_closed (chans st c) \<Longrightarrow> c < nextChan st \<Longrightarrow>
   exec n config acts st = Inr st' \<Longrightarrow>
   is_closed (chans st' c) \<and> c < nextChan st' \<and>
   suffix (items (chans st' c)) (items (chans st c))"
proof (induction acts arbitrary: st)
  case Nil
  then show ?case by simp
next
  case (Cons a acts)
  from Cons.prems(4) obtain st1 where s: "step n config a st = Inr st1"
    and e: "exec n config acts st1 = Inr st'"
    by (auto split: sum.splits)
  note ok1 = registry_ok_step[OF Cons.prems(1) s]
  from closed_step[OF Cons.prems(1,2,3) s]
  have c1: "is_closed (chans st1 c)" and l1: "c < nextChan st1"
    and s1: "suffix (items (chans st1 c)) (items (chans st c))" by simp_all
  from Cons.IH[OF ok1 c1 l1 e] s1 show ?case
    by (auto intro: suffix_order.trans)
qed

text \<open>The definitions a concrete run unfolds.\<close>

lemmas eval_defs =
  MakeEvents_def listen_buffer_def make_chan_def register_def state_def
  counting_provider_def publish_def send_def drop_def close_chan_def unregister_def
  serve_step_def recv_def stop_def overflows_def offered_def observed_def
  no_failed_write_def run_return_def close_clients_def registry_ok_def received_def

section \<open>Publishing an event\<close>

text \<open>
  C1. When the loop receives an event, every registered queue gets a non-blocking send:
  a queue with room gets the event appended and stays registered; a full queue is closed
  and removed, it alone; queues that are not registered are not touched; the step always
  completes without a panic, and it returns nothing to the producer. The outcome is the
  same in whatever order the registry is visited.
\<close>

theorem publish_enqueues_or_drops:
  assumes "registry_ok st"
  shows "\<exists>st'. run_select (EventPush e) st = Inr st' \<and>
           (\<forall>ks. distinct ks \<and> set ks = set (clients st) \<longrightarrow> publish_range ks e st = Inr st') \<and>
           (\<forall>c \<in> set (clients st).
              (length (items (chans st c)) < capacity (chans st c) \<longrightarrow>
                 chans st' c = (chans st c)\<lparr>items := items (chans st c) @ [e]\<rparr> \<and>
                 c \<in> set (clients st')) \<and>
              (\<not> length (items (chans st c)) < capacity (chans st c) \<longrightarrow>
                 chans st' c = (chans st c)\<lparr>is_closed := True\<rparr> \<and>
                 c \<notin> set (clients st'))) \<and>
           (\<forall>c. c \<notin> set (clients st) \<longrightarrow> chans st' c = chans st c \<and> c \<notin> set (clients st')) \<and>
           nextChan st' = nextChan st \<and> running st' = running st \<and>
           phase st' = phase st \<and> wire st' = wire st"
proof -
  from publish_spec[OF assms, of e] obtain st' where
    p: "publish e st = Inr st'"
    and ch: "\<forall>c. chans st' c = (if c \<in> set (clients st) then offer e (chans st c) else chans st c)"
    and cl: "clients st' = filter (\<lambda>c. has_room (chans st c)) (clients st)"
    and rest: "nextChan st' = nextChan st" "running st' = running st"
              "phase st' = phase st" "wire st' = wire st"
    by blast
  have 1: "run_select (EventPush e) st = Inr st'" using p by simp
  have 2: "\<forall>ks. distinct ks \<and> set ks = set (clients st) \<longrightarrow> publish_range ks e st = Inr st'"
    using publish_range_any_order[OF assms] p by simp
  have 3: "\<forall>c \<in> set (clients st).
              (length (items (chans st c)) < capacity (chans st c) \<longrightarrow>
                 chans st' c = (chans st c)\<lparr>items := items (chans st c) @ [e]\<rparr> \<and>
                 c \<in> set (clients st')) \<and>
              (\<not> length (items (chans st c)) < capacity (chans st c) \<longrightarrow>
                 chans st' c = (chans st c)\<lparr>is_closed := True\<rparr> \<and>
                 c \<notin> set (clients st'))"
    unfolding cl by (simp add: ch offer_def has_room_def)
  have 4: "\<forall>c. c \<notin> set (clients st) \<longrightarrow> chans st' c = chans st c \<and> c \<notin> set (clients st')"
    unfolding cl by (simp add: ch)
  show ?thesis using 1 2 3 4 rest by blast
qed

theorem publish_enqueues_or_drops_witness:
  "registry_ok two_queues \<and>
   run_select (EventPush (Val 7)) two_queues =
     Inr (two_queues\<lparr>chans := (chans two_queues)
                         (0 := \<lparr>items = [Val 1], capacity = 1, is_closed = True\<rparr>,
                          1 := \<lparr>items = [Val 7], capacity = 1, is_closed = False\<rparr>),
                      clients := [1]\<rparr>) \<and>
   distinct [1, 0 :: nat] \<and> set [1, 0] = set (clients two_queues) \<and>
   publish_range [1, 0] (Val 7) two_queues =
     Inr (two_queues\<lparr>chans := (chans two_queues)
                         (0 := \<lparr>items = [Val 1], capacity = 1, is_closed = True\<rparr>,
                          1 := \<lparr>items = [Val 7], capacity = 1, is_closed = False\<rparr>),
                      clients := [1]\<rparr>)"
proof -
  have h: "registry_ok two_queues"
    by (simp add: registry_ok_def two_queues_def)
  have p: "run_select (EventPush (Val 7)) two_queues =
     Inr (two_queues\<lparr>chans := (chans two_queues)
                         (0 := \<lparr>items = [Val 1], capacity = 1, is_closed = True\<rparr>,
                          1 := \<lparr>items = [Val 7], capacity = 1, is_closed = False\<rparr>),
                      clients := [1]\<rparr>)"
    by (simp add: two_queues_def publish_def send_def drop_def close_chan_def unregister_def fun_upd_twist)
  have k: "distinct [1, 0 :: nat] \<and> set [1, 0] = set (clients two_queues)"
    by (auto simp: two_queues_def)
  from publish_enqueues_or_drops[OF h, of "Val 7"] obtain st' where
    r: "run_select (EventPush (Val 7)) two_queues = Inr st'"
    and o: "\<forall>ks. distinct ks \<and> set ks = set (clients two_queues) \<longrightarrow>
               publish_range ks (Val 7) two_queues = Inr st'"
    by blast
  from o k have "publish_range [1, 0] (Val 7) two_queues = Inr st'" by blast
  with r have "publish_range [1, 0] (Val 7) two_queues = run_select (EventPush (Val 7)) two_queues"
    by simp
  with h p k show ?thesis by simp
qed

section \<open>Unregistering\<close>

text \<open>
  C4. Unregistering is idempotent: for a queue that is not in the registry (one the loop
  has dropped, for instance) the step returns the state it was given, without a panic;
  in every state the step leaves the queue unregistered, touches nothing but the
  registry, and a second unregister changes nothing more.
\<close>

theorem unregister_idempotent:
  "(c \<notin> set (clients st) \<longrightarrow> run_select (Unregister c) st = Inr st) \<and>
   (\<exists>st'. run_select (Unregister c) st = Inr st' \<and>
          c \<notin> set (clients st') \<and>
          run_select (Unregister c) st' = Inr st' \<and>
          chans st' = chans st \<and> nextChan st' = nextChan st \<and> running st' = running st \<and>
          phase st' = phase st \<and> wire st' = wire st) \<and>
   (running st \<longrightarrow> run [Unregister c, Unregister c] st = run [Unregister c] st)"
  by (simp add: unregister_def)

theorem unregister_idempotent_witness:
  "0 \<notin> set (clients (two_queues\<lparr>clients := [1]\<rparr>)) \<and>
   run_select (Unregister 0) (two_queues\<lparr>clients := [1]\<rparr>) = Inr (two_queues\<lparr>clients := [1]\<rparr>) \<and>
   running two_queues \<and>
   run [Unregister 1, Unregister 1] two_queues = Inr (two_queues\<lparr>clients := [0]\<rparr>)"
  using unregister_idempotent[of 0 "two_queues\<lparr>clients := [1]\<rparr>"]
        unregister_idempotent[of 1 two_queues]
  by (simp add: two_queues_def unregister_def)

section \<open>Closing the event source\<close>

text \<open>
  C3, as the code has it. When the loop finds the event source closed it closes every
  registered queue and empties the registry, so a reader of a drained queue sees the
  closure; it leaves all other queues alone and returns. After that every \<^verbatim>\<open>listen\<close>
  and every \<^verbatim>\<open>stop\<close> panics with a send on a closed channel: no error value is
  returned, the functions have none.
\<close>

theorem source_closed_drops_all_then_calls_panic:
  assumes "registry_ok st" and "running st"
  shows "\<exists>st'. run [EventClosed] st = Inr st' \<and>
           clients st' = [] \<and> \<not> running st' \<and>
           (\<forall>c \<in> set (clients st).
              chans st' c = (chans st c)\<lparr>is_closed := True\<rparr> \<and>
              (items (chans st c) = [] \<longrightarrow> recv c st' = Drained)) \<and>
           (\<forall>c. c \<notin> set (clients st) \<longrightarrow> chans st' c = chans st c) \<and>
           (\<forall>config w. listen config w st' = Inl (SendOnClosedChannel RegisterChan)) \<and>
           (\<forall>c. stop c st' = Inl (SendOnClosedChannel UnregisterChan)) \<and>
           (\<forall>ms. run ms st' = Inr st')"
proof -
  from run_return_spec[OF assms(1)] obtain st' where
    r: "run_return st = Inr st'"
    and ch: "\<forall>c. chans st' c = (if c \<in> set (clients st)
                                then (chans st c)\<lparr>is_closed := True\<rparr> else chans st c)"
    and cl: "clients st' = []" and nr: "\<not> running st'"
    by blast
  have 1: "run [EventClosed] st = Inr st'" using r assms(2) by simp
  have 2: "\<forall>c \<in> set (clients st).
              chans st' c = (chans st c)\<lparr>is_closed := True\<rparr> \<and>
              (items (chans st c) = [] \<longrightarrow> recv c st' = Drained)"
    by (simp add: ch recv_def)
  have 3: "\<forall>c. c \<notin> set (clients st) \<longrightarrow> chans st' c = chans st c"
    by (simp add: ch)
  have 4: "\<forall>config w. listen config w st' = Inl (SendOnClosedChannel RegisterChan)"
    using nr by (simp add: listen_def listen_buffer_def make_chan_def)
  have 5: "\<forall>c. stop c st' = Inl (SendOnClosedChannel UnregisterChan)"
    using nr by (simp add: stop_def)
  have 6: "\<forall>ms. run ms st' = Inr st'"
  proof
    fix ms show "run ms st' = Inr st'" using nr by (cases ms) simp_all
  qed
  show ?thesis using 1 2 3 4 5 6 cl nr by blast
qed

theorem source_closed_drops_all_then_calls_panic_witness:
  "registry_ok two_queues \<and> running two_queues \<and>
   run [EventClosed] two_queues =
     Inr (two_queues\<lparr>running := False,
                      chans := (chans two_queues)
                         (0 := \<lparr>items = [Val 1], capacity = 1, is_closed = True\<rparr>,
                          1 := \<lparr>items = [], capacity = 1, is_closed = True\<rparr>),
                      clients := []\<rparr>)"
proof -
  have h: "registry_ok two_queues"
    by (simp add: registry_ok_def two_queues_def)
  have r: "running two_queues" by (simp add: two_queues_def)
  have "run [EventClosed] two_queues =
     Inr (two_queues\<lparr>running := False,
                      chans := (chans two_queues)
                         (0 := \<lparr>items = [Val 1], capacity = 1, is_closed = True\<rparr>,
                          1 := \<lparr>items = [], capacity = 1, is_closed = True\<rparr>),
                      clients := []\<rparr>)"
    by (simp add: two_queues_def run_return_def close_clients_def drop_def close_chan_def
        unregister_def fun_upd_twist)
  with h r source_closed_drops_all_then_calls_panic[OF h r] show ?thesis by simp
qed

text \<open>
  On a broadcaster that has just been made and whose source is closed at once, \<^verbatim>\<open>stop\<close>
  and \<^verbatim>\<open>listen\<close> end in the run-time panic, not in a returned error.
\<close>

theorem listen_after_return_counterexample:
  "run [EventClosed] (MakeEvents :: nat system) = Inr (MakeEvents\<lparr>running := False\<rparr>) \<and>
   stop 0 (MakeEvents\<lparr>running := False\<rparr> :: nat system) = Inl (SendOnClosedChannel UnregisterChan) \<and>
   listen no_provider () (MakeEvents\<lparr>running := False\<rparr>) = Inl (SendOnClosedChannel RegisterChan)"
  by (simp add: MakeEvents_def run_return_def close_clients_def stop_def listen_def
      listen_buffer_def make_chan_def)

section \<open>Subscribing\<close>

text \<open>
  C5. While the loop runs, \<^verbatim>\<open>listen\<close> makes a queue at a new address, empty, open, of
  capacity \<^verbatim>\<open>EVENTS_BUFFER\<close> = 100; it returns once the loop has received the queue on
  \<^verbatim>\<open>registerChan\<close> and registered it; and it returns the queue together with the state:
  what \<^verbatim>\<open>StateFunc\<close> returns at that moment, or \<^verbatim>\<open>struct{}{}\<close> when there is no
  \<^verbatim>\<open>StateFunc\<close>.
\<close>

theorem listen_allocates_registers_returns_state:
  assumes "registry_ok st" and "running st"
  shows "\<exists>st'. listen config w st = Inr (state config w, nextChan st, st') \<and>
           nextChan st \<notin> set (clients st) \<and>
           chans st' (nextChan st) = \<lparr>items = [], capacity = 100, is_closed = False\<rparr> \<and>
           run [Register (nextChan st)] (snd (make_chan EVENTS_BUFFER st)) = Inr st' \<and>
           set (clients st') = insert (nextChan st) (set (clients st)) \<and>
           (\<forall>c. c \<noteq> nextChan st \<longrightarrow> chans st' c = chans st c) \<and>
           registry_ok st' \<and>
           state config w = (case StateFunc config of Some f \<Rightarrow> f w | None \<Rightarrow> EmptyStruct)"
proof -
  from assms(1) have fresh: "nextChan st \<notin> set (clients st)"
    by (auto simp: registry_ok_def)
  show ?thesis using assms fresh
    by (auto simp: listen_def listen_buffer_def make_chan_def register_def EVENTS_BUFFER_def
        state_def registry_ok_def less_Suc_eq)
qed

theorem listen_allocates_registers_returns_state_witness:
  "registry_ok two_queues \<and> running two_queues \<and>
   listen counting_provider 5 two_queues =
     Inr (Val 5, 2,
          two_queues\<lparr>chans := (chans two_queues)
                         (2 := \<lparr>items = [], capacity = 100, is_closed = False\<rparr>),
                      nextChan := 3, clients := [2, 0, 1]\<rparr>) \<and>
   listen no_provider () (MakeEvents :: nat system) =
     Inr (EmptyStruct, 0,
          MakeEvents\<lparr>chans := (chans MakeEvents)
                         (0 := \<lparr>items = [], capacity = 100, is_closed = False\<rparr>),
                      nextChan := 1, clients := [0]\<rparr>)"
proof -
  have h: "registry_ok two_queues"
    by (simp add: registry_ok_def two_queues_def)
  have r: "running two_queues" by (simp add: two_queues_def)
  have h0: "registry_ok (MakeEvents :: nat system)" by (simp add: registry_ok_def MakeEvents_def)
  have r0: "running (MakeEvents :: nat system)" by (simp add: MakeEvents_def)
  show ?thesis
    using h r listen_allocates_registers_returns_state[OF h r, of counting_provider 5]
      listen_allocates_registers_returns_state[OF h0 r0, of no_provider "()"]
    by (simp add: two_queues_def MakeEvents_def listen_def listen_buffer_def make_chan_def
        register_def EVENTS_BUFFER_def state_def counting_provider_def no_provider_def)
qed

section \<open>What a subscriber observes\<close>

text \<open>
  C2. A call gets through \<^verbatim>\<open>listen\<close> and the program goes on in any way. If no
  event published while its queue is registered finds the queue full, then the events it
  has received from its queue, followed by those still waiting in the queue, are exactly
  the events published while the queue was registered, in the loop's order: nothing
  lost, nothing twice, nothing out of order. This holds whatever becomes of its websocket
  writes. If moreover none of its writes has failed, what it has written followed by what
  it still has to write is the state followed by those events; what it has written so
  far is a prefix of that, and all of it once the queue is empty and the state is out.
\<close>

theorem subscriber_observes_published_sequence:
  assumes "registry_ok st0"
    and "step n config (Listen w) st0 = Inr st1"
    and "exec n config acts st1 = Inr st2"
    and "never_overflows n config (nextChan st0) acts st1"
  shows "taken n config (nextChan st0) acts st1 @ items (chans st2 (nextChan st0)) =
           published_to n config (nextChan st0) acts st1 \<and>
         prefix (wire st2 (nextChan st0))
           (state config w # published_to n config (nextChan st0) acts st1) \<and>
         (no_failed_write (phase st2 (nextChan st0)) \<longrightarrow>
            observed (nextChan st0) st2 =
              state config w # published_to n config (nextChan st0) acts st1 \<and>
            (phase st2 (nextChan st0) \<noteq> Initial (state config w) \<and>
             items (chans st2 (nextChan st0)) = [] \<longrightarrow>
               wire st2 (nextChan st0) =
                 state config w # published_to n config (nextChan st0) acts st1))"
proof -
  let ?c = "nextChan st0" and ?s = "state config w"
  let ?p = "published_to n config ?c acts st1"
  have ok1: "registry_ok st1" using assms(1,2) by (rule registry_ok_step)
  have q1: "queue_tracks ?c [] [] True st1" using assms(2) by (rule queue_tracks_Listen_new)
  from queue_tracks_exec[OF ok1 q1 assms(3)] assms(4)
  have "queue_tracks ?c ?p (taken n config ?c acts st1) True st2" by simp
  then have 1: "taken n config ?c acts st1 @ items (chans st2 ?c) = ?p"
    by (simp add: queue_tracks_def)
  have t1: "tracks ?c ?s [] True st1" using assms(2) by (rule tracks_Listen_new)
  from tracks_exec[OF ok1 t1 assms(3)] assms(4)
  have t2: "tracks ?c ?s ?p True st2" by simp
  then have 2: "prefix (wire st2 ?c) (?s # ?p)"
    and ini: "\<forall>s'. phase st2 ?c = Initial s' \<longrightarrow> s' = ?s"
    and eq: "no_failed_write (phase st2 ?c) \<longrightarrow> observed ?c st2 = ?s # ?p"
    by (simp_all add: tracks_def)
  have 3: "no_failed_write (phase st2 ?c) \<longrightarrow>
            observed ?c st2 = ?s # ?p \<and>
            (phase st2 ?c \<noteq> Initial ?s \<and> items (chans st2 ?c) = [] \<longrightarrow>
               wire st2 ?c = ?s # ?p)"
  proof (intro impI conjI)
    assume f: "no_failed_write (phase st2 ?c)"
    with eq show o: "observed ?c st2 = ?s # ?p" by simp
    assume a: "phase st2 ?c \<noteq> Initial ?s \<and> items (chans st2 ?c) = []"
    with ini have "\<forall>s'. phase st2 ?c \<noteq> Initial s'" by auto
    then have "(case phase st2 ?c of Initial s \<Rightarrow> [s] | _ \<Rightarrow> []) = []"
      by (cases "phase st2 ?c") simp_all
    with o a show "wire st2 ?c = ?s # ?p"
      by (simp add: observed_def)
  qed
  show ?thesis using 1 2 3 by - (intro conjI; assumption)
qed

theorem subscriber_observes_published_sequence_witness:
  "registry_ok (MakeEvents :: nat system) \<and>
   (\<exists>st1 st2.
      step 2 counting_provider (Listen 7) MakeEvents = Inr st1 \<and>
      exec 2 counting_provider [Push (Val 1), Serve 0 True, Serve 0 True, Push (Val 2)] st1 = Inr st2 \<and>
      never_overflows 2 counting_provider 0
        [Push (Val 1), Serve 0 True, Serve 0 True, Push (Val 2)] st1 \<and>
      no_failed_write (phase st2 0) \<and>
      published_to 2 counting_provider 0
        [Push (Val 1), Serve 0 True, Serve 0 True, Push (Val 2)] st1 = [Val 1, Val 2] \<and>
      taken 2 counting_provider 0
        [Push (Val 1), Serve 0 True, Serve 0 True, Push (Val 2)] st1 = [Val 1] \<and>
      items (chans st2 0) = [Val 2] \<and>
      wire st2 0 = [Val 7, Val 1] \<and>
      observed 0 st2 = [Val 7, Val 1, Val 2]) \<and>
   (\<exists>st1 st2.
      step 2 counting_provider (Listen 7) MakeEvents = Inr st1 \<and>
      exec 2 counting_provider [Push (Val 1), Serve 0 True, Serve 0 False, Push (Val 2)] st1 = Inr st2 \<and>
      never_overflows 2 counting_provider 0
        [Push (Val 1), Serve 0 True, Serve 0 False, Push (Val 2)] st1 \<and>
      \<not> no_failed_write (phase st2 0) \<and>
      published_to 2 counting_provider 0
        [Push (Val 1), Serve 0 True, Serve 0 False, Push (Val 2)] st1 = [Val 1, Val 2] \<and>
      taken 2 counting_provider 0
        [Push (Val 1), Serve 0 True, Serve 0 False, Push (Val 2)] st1 = [Val 1] \<and>
      items (chans st2 0) = [Val 2] \<and>
      wire st2 0 = [Val 7] \<and>
      taken 2 counting_provider 0
        [Push (Val 1), Serve 0 True, Serve 0 False, Push (Val 2)] st1 @ items (chans st2 0) =
        [Val 1, Val 2])"
proof -
  let ?acts = "[Push (Val 1), Serve 0 True, Serve 0 True, Push (Val 2)] :: (nat, nat) action list"
  let ?fail = "[Push (Val 1), Serve 0 True, Serve 0 False, Push (Val 2)] :: (nat, nat) action list"
  have ok: "registry_ok (MakeEvents :: nat system)" by (simp add: eval_defs)
  obtain st1 :: "nat system" where s1: "step 2 counting_provider (Listen 7) MakeEvents = Inr st1"
    by (simp add: eval_defs)
  have nc: "nextChan (MakeEvents :: nat system) = 0" by (simp add: MakeEvents_def)
  have "\<exists>st2. exec 2 counting_provider ?acts st1 = Inr st2 \<and>
      never_overflows 2 counting_provider 0 ?acts st1 \<and>
      no_failed_write (phase st2 0) \<and>
      published_to 2 counting_provider 0 ?acts st1 = [Val 1, Val 2] \<and>
      taken 2 counting_provider 0 ?acts st1 = [Val 1] \<and>
      items (chans st2 0) = [Val 2] \<and>
      wire st2 0 = [Val 7, Val 1]"
    using s1 by (auto simp: eval_defs)
  then obtain st2 where e: "exec 2 counting_provider ?acts st1 = Inr st2"
    and n: "never_overflows 2 counting_provider 0 ?acts st1"
    and f: "no_failed_write (phase st2 0)"
    and p: "published_to 2 counting_provider 0 ?acts st1 = [Val 1, Val 2]"
    and k: "taken 2 counting_provider 0 ?acts st1 = [Val 1]"
    and q: "items (chans st2 0) = [Val 2]"
    and w: "wire st2 0 = [Val 7, Val 1]"
    by blast
  from subscriber_observes_published_sequence[OF ok s1 e, unfolded nc, OF n, unfolded p] f
  have o: "observed 0 st2 = [Val 7, Val 1, Val 2]"
    by (simp add: state_def counting_provider_def)
  have A: "\<exists>st1 st2.
      step 2 counting_provider (Listen 7) MakeEvents = Inr st1 \<and>
      exec 2 counting_provider ?acts st1 = Inr st2 \<and>
      never_overflows 2 counting_provider 0 ?acts st1 \<and>
      no_failed_write (phase st2 0) \<and>
      published_to 2 counting_provider 0 ?acts st1 = [Val 1, Val 2] \<and>
      taken 2 counting_provider 0 ?acts st1 = [Val 1] \<and>
      items (chans st2 0) = [Val 2] \<and>
      wire st2 0 = [Val 7, Val 1] \<and>
      observed 0 st2 = [Val 7, Val 1, Val 2]"
    using s1 e n f p k q w o by blast
  have "\<exists>st3. exec 2 counting_provider ?fail st1 = Inr st3 \<and>
      never_overflows 2 counting_provider 0 ?fail st1 \<and>
      \<not> no_failed_write (phase st3 0) \<and>
      published_to 2 counting_provider 0 ?fail st1 = [Val 1, Val 2] \<and>
      taken 2 counting_provider 0 ?fail st1 = [Val 1] \<and>
      items (chans st3 0) = [Val 2] \<and>
      wire st3 0 = [Val 7]"
    using s1 by (auto simp: eval_defs)
  then obtain st3 where e': "exec 2 counting_provider ?fail st1 = Inr st3"
    and n': "never_overflows 2 counting_provider 0 ?fail st1"
    and f': "\<not> no_failed_write (phase st3 0)"
    and p': "published_to 2 counting_provider 0 ?fail st1 = [Val 1, Val 2]"
    and k': "taken 2 counting_provider 0 ?fail st1 = [Val 1]"
    and q': "items (chans st3 0) = [Val 2]"
    and w': "wire st3 0 = [Val 7]"
    by blast
  from subscriber_observes_published_sequence[OF ok s1 e', unfolded nc, OF n', unfolded p']
  have o': "taken 2 counting_provider 0 ?fail st1 @ items (chans st3 0) = [Val 1, Val 2]"
    by simp
  have B: "\<exists>st1 st2.
      step 2 counting_provider (Listen 7) MakeEvents = Inr st1 \<and>
      exec 2 counting_provider ?fail st1 = Inr st2 \<and>
      never_overflows 2 counting_provider 0 ?fail st1 \<and>
      \<not> no_failed_write (phase st2 0) \<and>
      published_to 2 counting_provider 0 ?fail st1 = [Val 1, Val 2] \<and>
      taken 2 counting_provider 0 ?fail st1 = [Val 1] \<and>
      items (chans st2 0) = [Val 2] \<and>
      wire st2 0 = [Val 7] \<and>
      taken 2 counting_provider 0 ?fail st1 @ items (chans st2 0) = [Val 1, Val 2]"
    using s1 e' n' f' p' k' q' w' o' by blast
  show ?thesis using ok A B by - (intro conjI; assumption)
qed

section \<open>A closed queue\<close>

text \<open>
  C7. The loop is the only one to close a queue, and it does so in \<^verbatim>\<open>drop\<close>. From a
  state in which a queue is closed, whatever the program does next, the queue stays
  closed and out of the registry and its buffer is never appended to: its content is
  always a suffix of what it was, shortened only by its reader. Unregistering it, by the
  loop or through \<^verbatim>\<open>stop\<close> while the loop runs, leaves the state as it is.
\<close>

theorem closed_queue_never_receives:
  assumes "registry_ok st" and "is_closed (chans st c)" and "c < nextChan st"
    and "exec n config acts st = Inr st'"
  shows "is_closed (chans st' c) \<and>
         suffix (items (chans st' c)) (items (chans st c)) \<and>
         c \<notin> set (clients st') \<and>
         run_select (Unregister c) st' = Inr st' \<and>
         (running st' \<longrightarrow> stop c st' = Inr st')"
proof -
  from closed_exec[OF assms]
  have cl: "is_closed (chans st' c)"
    and sf: "suffix (items (chans st' c)) (items (chans st c))" by simp_all
  have ok': "registry_ok st'" using assms(1,4) by (rule registry_ok_exec)
  with cl have nc: "c \<notin> set (clients st')" by (auto simp: registry_ok_def)
  then have u: "run_select (Unregister c) st' = Inr st'" by (simp add: unregister_def)
  then have "running st' \<longrightarrow> stop c st' = Inr st'" by (simp add: stop_def)
  with cl sf nc u show ?thesis by blast
qed

theorem closed_queue_never_receives_witness:
  "registry_ok one_dropped \<and> is_closed (chans one_dropped 0) \<and> 0 < nextChan one_dropped \<and>
   (\<exists>st'. exec 1 counting_provider [Push (Val 8), Stop 0, Listen 5, Push (Val 9)] one_dropped = Inr st' \<and>
          chans st' 0 = \<lparr>items = [Val 1], capacity = 1, is_closed = True\<rparr> \<and>
          clients st' = [2] \<and>
          run_select (Unregister 0) st' = Inr st')"
proof -
  let ?acts = "[Push (Val 8), Stop 0, Listen 5, Push (Val 9)] :: (nat, nat) action list"
  have ok: "registry_ok one_dropped" by (simp add: one_dropped_def registry_ok_def)
  have cl: "is_closed (chans one_dropped 0)" by (simp add: one_dropped_def)
  have lt: "0 < nextChan one_dropped" by (simp add: one_dropped_def)
  have "\<exists>st'. exec 1 counting_provider ?acts one_dropped = Inr st' \<and>
          chans st' 0 = \<lparr>items = [Val 1], capacity = 1, is_closed = True\<rparr> \<and>
          clients st' = [2]"
    by (simp add: one_dropped_def eval_defs)
  then obtain st' where e: "exec 1 counting_provider ?acts one_dropped = Inr st'"
    and c: "chans st' 0 = \<lparr>items = [Val 1], capacity = 1, is_closed = True\<rparr>"
    and r: "clients st' = [2]"
    by blast
  from closed_queue_never_receives[OF ok cl lt e]
  have "run_select (Unregister 0) st' = Inr st'" by simp
  with ok cl lt e c r show ?thesis by blast
qed

section \<open>The state comes first\<close>

text \<open>
  C8. Registering adds the queue whatever the state of the loop. A call that got through
  \<^verbatim>\<open>listen\<close> has its queue in the registry; from then on, as long as the queue is
  registered and the loop runs, every event the loop receives is offered to it. What the
  call writes to its connection always starts with the state returned by \<^verbatim>\<open>listen\<close>
  and continues with events published after the registration, in order.
\<close>

theorem snapshot_first_then_later_events:
  fixes st0 :: "'a system"
  assumes "registry_ok st0"
    and "step n config (Listen w) st0 = Inr st1"
    and "exec n config acts st1 = Inr st2"
  shows "(\<forall>c (st :: 'a system). \<exists>st'. run_select (Register c) st = Inr st' \<and>
                      set (clients st') = insert c (set (clients st))) \<and>
         nextChan st0 \<in> set (clients st1) \<and>
         phase st1 (nextChan st0) = Initial (state config w) \<and>
         prefix (wire st2 (nextChan st0))
           (state config w # published_to n config (nextChan st0) acts st1) \<and>
         (\<forall>e. running st2 \<and> nextChan st0 \<in> set (clients st2) \<longrightarrow>
            (\<exists>st3. step n config (Push e) st2 = Inr st3 \<and>
                   chans st3 (nextChan st0) =
                     (if length (items (chans st2 (nextChan st0))) < capacity (chans st2 (nextChan st0))
                      then (chans st2 (nextChan st0))
                             \<lparr>items := items (chans st2 (nextChan st0)) @ [e]\<rparr>
                      else (chans st2 (nextChan st0))\<lparr>is_closed := True\<rparr>)))"
proof -
  let ?c = "nextChan st0" and ?s = "state config w"
  have 1: "\<forall>c (st :: 'a system). \<exists>st'. run_select (Register c) st = Inr st' \<and>
                      set (clients st') = insert c (set (clients st))"
    by (simp add: register_def)
  note sp = step_Listen_spec[OF assms(2)]
  have 2: "?c \<in> set (clients st1)" and 3: "phase st1 ?c = Initial ?s"
    using sp by simp_all
  have ok1: "registry_ok st1" using assms(1,2) by (rule registry_ok_step)
  have ok2: "registry_ok st2" using ok1 assms(3) by (rule registry_ok_exec)
  have t1: "tracks ?c ?s [] True st1" using assms(2) by (rule tracks_Listen_new)
  from tracks_exec[OF ok1 t1 assms(3)]
  have 4: "prefix (wire st2 ?c) (?s # published_to n config ?c acts st1)"
    by (simp add: tracks_def)
  have 5: "\<forall>e. running st2 \<and> ?c \<in> set (clients st2) \<longrightarrow>
            (\<exists>st3. step n config (Push e) st2 = Inr st3 \<and>
                   chans st3 ?c =
                     (if length (items (chans st2 ?c)) < capacity (chans st2 ?c)
                      then (chans st2 ?c)\<lparr>items := items (chans st2 ?c) @ [e]\<rparr>
                      else (chans st2 ?c)\<lparr>is_closed := True\<rparr>))"
  proof (intro allI impI)
    fix e assume a: "running st2 \<and> ?c \<in> set (clients st2)"
    from publish_spec[OF ok2, of e] obtain st3 where
      p: "publish e st2 = Inr st3"
      and ch: "\<forall>c. chans st3 c = (if c \<in> set (clients st2)
                                then offer e (chans st2 c) else chans st2 c)"
      by blast
    have "step n config (Push e) st2 = Inr st3" using a p by simp
    moreover have "chans st3 ?c = offer e (chans st2 ?c)" using a ch by simp
    ultimately show "\<exists>st3. step n config (Push e) st2 = Inr st3 \<and>
                   chans st3 ?c =
                     (if length (items (chans st2 ?c)) < capacity (chans st2 ?c)
                      then (chans st2 ?c)\<lparr>items := items (chans st2 ?c) @ [e]\<rparr>
                      else (chans st2 ?c)\<lparr>is_closed := True\<rparr>)"
      by (auto simp: offer_def has_room_def)
  qed
  show ?thesis using 1 2 3 4 5 by - (intro conjI; assumption)
qed

theorem snapshot_first_then_later_events_witness:
  "registry_ok (MakeEvents :: nat system) \<and>
   (\<exists>st1 st2.
      step 2 counting_provider (Listen 7) MakeEvents = Inr st1 \<and>
      exec 2 counting_provider [Push (Val 1), Serve 0 True, Serve 0 False] st1 = Inr st2 \<and>
      published_to 2 counting_provider 0 [Push (Val 1), Serve 0 True, Serve 0 False] st1 = [Val 1] \<and>
      wire st2 0 = [Val 7] \<and>
      prefix (wire st2 0) [Val 7, Val 1])"
proof -
  let ?acts = "[Push (Val 1), Serve 0 True, Serve 0 False] :: (nat, nat) action list"
  have ok: "registry_ok (MakeEvents :: nat system)" by (simp add: eval_defs)
  obtain st1 :: "nat system" where s1: "step 2 counting_provider (Listen 7) MakeEvents = Inr st1"
    by (simp add: eval_defs)
  have "\<exists>st2. exec 2 counting_provider ?acts st1 = Inr st2 \<and>
      published_to 2 counting_provider 0 ?acts st1 = [Val 1] \<and>
      wire st2 0 = [Val 7]"
    using s1 by (auto simp: eval_defs)
  then obtain st2 where e: "exec 2 counting_provider ?acts st1 = Inr st2"
    and p: "published_to 2 counting_provider 0 ?acts st1 = [Val 1]"
    and w: "wire st2 0 = [Val 7]"
    by blast
  have nc: "nextChan (MakeEvents :: nat system) = 0" by (simp add: MakeEvents_def)
  from snapshot_first_then_later_events[OF ok s1 e, unfolded nc p]
  have "prefix (wire st2 0) [Val 7, Val 1]"
    by (simp add: state_def counting_provider_def)
  with ok s1 e p w show ?thesis by blast
qed

section \<open>The registry holds open queues only\<close>

text \<open>
  C10. In every state the program reaches from \<^verbatim>\<open>MakeEvents\<close> the registered queues
  are distinct and open. From such a state no step panics on a client queue (the only
  panics are sends of callers on the closed control channels), the next state has the
  same property, a queue that becomes closed was registered before the step and is not
  after it, and an event changes no queue outside the registry.
\<close>

theorem registry_holds_open_queues_only:
  assumes "exec n config acts MakeEvents = Inr st"
  shows "distinct (clients st) \<and>
         (\<forall>c \<in> set (clients st). \<not> is_closed (chans st c)) \<and>
         (\<forall>a. case step n config a st of
                 Inl f \<Rightarrow> f = SendOnClosedChannel RegisterChan \<or>
                          f = SendOnClosedChannel UnregisterChan
               | Inr st' \<Rightarrow>
                   distinct (clients st') \<and>
                   (\<forall>c \<in> set (clients st'). \<not> is_closed (chans st' c)) \<and>
                   (\<forall>c. is_closed (chans st' c) \<and> \<not> is_closed (chans st c) \<longrightarrow>
                          c \<in> set (clients st) \<and> c \<notin> set (clients st')) \<and>
                   (\<forall>c e. a = Push e \<and> c \<notin> set (clients st) \<longrightarrow> chans st' c = chans st c))"
proof -
  have ok: "registry_ok st" using registry_ok_MakeEvents assms by (rule registry_ok_exec)
  have "case step n config a st of
                 Inl f \<Rightarrow> f = SendOnClosedChannel RegisterChan \<or>
                          f = SendOnClosedChannel UnregisterChan
               | Inr st' \<Rightarrow>
                   distinct (clients st') \<and>
                   (\<forall>c \<in> set (clients st'). \<not> is_closed (chans st' c)) \<and>
                   (\<forall>c. is_closed (chans st' c) \<and> \<not> is_closed (chans st c) \<longrightarrow>
                          c \<in> set (clients st) \<and> c \<notin> set (clients st')) \<and>
                   (\<forall>c e. a = Push e \<and> c \<notin> set (clients st) \<longrightarrow> chans st' c = chans st c)" for a
  proof (cases "step n config a st")
    case (Inl f)
    with step_fault[OF ok Inl] show ?thesis by simp
  next
    case (Inr st')
    have ok': "registry_ok st'" using ok Inr by (rule registry_ok_step)
    have cp: "\<forall>c. is_closed (chans st' c) \<and> \<not> is_closed (chans st c) \<longrightarrow>
                          c \<in> set (clients st) \<and> c \<notin> set (clients st')"
    proof (cases a)
      case (Listen w)
      from step_Listen_spec[OF Inr[unfolded Listen]] show ?thesis by auto
    next
      case (Serve c' ok'')
      with Inr have "serve_step c' ok'' st = Inr st'" by simp
      from serve_step_frame[OF this] show ?thesis by simp
    next
      case (Stop c')
      from step_Stop_spec[OF Inr[unfolded Stop]] show ?thesis
        by (simp add: unregister_def)
    next
      case (Push e)
      from step_Push_cases[OF Inr[unfolded Push]] show ?thesis
      proof
        assume "running st \<and> publish e st = Inr st'"
        with publish_spec[OF ok, of e]
        have ch: "\<And>c. chans st' c = (if c \<in> set (clients st)
                                then offer e (chans st c) else chans st c)"
          and cl: "clients st' = filter (\<lambda>c. has_room (chans st c)) (clients st)"
          by auto
        show ?thesis
        proof (intro allI impI)
          fix c assume a: "is_closed (chans st' c) \<and> \<not> is_closed (chans st c)"
          then have "c \<in> set (clients st)" using ch[of c] by (auto split: if_splits)
          moreover from this a have "\<not> has_room (chans st c)"
            using ch[of c] by (auto simp: offer_def split: if_splits)
          ultimately show "c \<in> set (clients st) \<and> c \<notin> set (clients st')"
            by (simp add: cl)
        qed
      next
        assume "\<not> running st \<and> st' = st"
        then show ?thesis by simp
      qed
    next
      case Close
      from step_Close_cases[OF Inr[unfolded Close]] show ?thesis
      proof
        assume "running st \<and> run_return st = Inr st'"
        with run_return_spec[OF ok]
        have ch: "\<And>c. chans st' c = (if c \<in> set (clients st)
                                then (chans st c)\<lparr>is_closed := True\<rparr> else chans st c)"
          and cl: "clients st' = []"
          by auto
        show ?thesis
        proof (intro allI impI)
          fix c assume a: "is_closed (chans st' c) \<and> \<not> is_closed (chans st c)"
          then have "c \<in> set (clients st)" using ch[of c] by (auto split: if_splits)
          then show "c \<in> set (clients st) \<and> c \<notin> set (clients st')"
            by (simp add: cl)
        qed
      next
        assume "\<not> running st \<and> st' = st"
        then show ?thesis by simp
      qed
    qed
    have fr: "\<forall>c e. a = Push e \<and> c \<notin> set (clients st) \<longrightarrow> chans st' c = chans st c"
    proof (intro allI impI)
      fix c e assume a: "a = Push e \<and> c \<notin> set (clients st)"
      with Inr have "step n config (Push e) st = Inr st'" by simp
      from step_Push_cases[OF this] show "chans st' c = chans st c"
      proof
        assume "running st \<and> publish e st = Inr st'"
        with publish_spec[OF ok, of e] a show ?thesis by auto
      next
        assume "\<not> running st \<and> st' = st"
        then show ?thesis by simp
      qed
    qed
    from ok' have d': "distinct (clients st')"
      and o': "\<forall>c \<in> set (clients st'). \<not> is_closed (chans st' c)"
      by (simp_all add: registry_ok_def)
    show ?thesis unfolding Inr sum.case using d' o' cp fr by - (intro conjI; assumption)
  qed
  then have all: "\<forall>a. case step n config a st of
                 Inl f \<Rightarrow> f = SendOnClosedChannel RegisterChan \<or>
                          f = SendOnClosedChannel UnregisterChan
               | Inr st' \<Rightarrow>
                   distinct (clients st') \<and>
                   (\<forall>c \<in> set (clients st'). \<not> is_closed (chans st' c)) \<and>
                   (\<forall>c. is_closed (chans st' c) \<and> \<not> is_closed (chans st c) \<longrightarrow>
                          c \<in> set (clients st) \<and> c \<notin> set (clients st')) \<and>
                   (\<forall>c e. a = Push e \<and> c \<notin> set (clients st) \<longrightarrow> chans st' c = chans st c)"
    by (rule allI)
  from ok have d: "distinct (clients st)"
    and o: "\<forall>c \<in> set (clients st). \<not> is_closed (chans st c)"
    by (simp_all add: registry_ok_def)
  show ?thesis using d o all by - (intro conjI; assumption)
qed

theorem registry_holds_open_queues_only_witness:
  "\<exists>st st'. exec 1 counting_provider [Listen 3, Push (Val 1)] (MakeEvents :: nat system) = Inr st \<and>
           clients st = [0] \<and> \<not> is_closed (chans st 0) \<and>
           step 1 counting_provider (Push (Val 2)) st = Inr st' \<and>
           clients st' = [] \<and> is_closed (chans st' 0) \<and> is_closed (chans st' 0) \<and>
           \<not> is_closed (chans st 0) \<and> 0 \<in> set (clients st) \<and> 0 \<notin> set (clients st')"
proof -
  let ?acts = "[Listen 3, Push (Val 1)] :: (nat, nat) action list"
  have "\<exists>st st'. exec 1 counting_provider ?acts (MakeEvents :: nat system) = Inr st \<and>
           clients st = [0] \<and> step 1 counting_provider (Push (Val 2)) st = Inr st' \<and>
           clients st' = [] \<and> is_closed (chans st' 0)"
    by (simp add: eval_defs)
  then obtain st st' :: "nat system" where
    e: "exec 1 counting_provider ?acts MakeEvents = Inr st"
    and c: "clients st = [0]"
    and s: "step 1 counting_provider (Push (Val 2)) st = Inr st'"
    and c': "clients st' = []" and cl: "is_closed (chans st' 0)"
    by blast
  from registry_holds_open_queues_only[OF e] c
  have o: "\<not> is_closed (chans st 0)" by simp
  note r = registry_holds_open_queues_only[OF e, THEN conjunct2, THEN conjunct2, THEN spec,
      of "Push (Val 2)", unfolded s sum.case]
  then have "is_closed (chans st' 0) \<and> \<not> is_closed (chans st 0) \<longrightarrow>
                          0 \<in> set (clients st) \<and> 0 \<notin> set (clients st')"
    by blast
  with cl o have "0 \<in> set (clients st) \<and> 0 \<notin> set (clients st')" by simp
  with e c s c' cl o show ?thesis by blast
qed

section \<open>No cached state\<close>

text \<open>
  C6, as the code has it. In the revision with \<^verbatim>\<open>StateFunc\<close>, an event changes the
  queues of registered subscribers and the registry and nothing else, and the state
  returned by \<^verbatim>\<open>listen\<close> is what \<^verbatim>\<open>StateFunc\<close> returns at that moment, or
  \<^verbatim>\<open>struct{}{}\<close> without one: no event the loop has seen enters it. The revision in
  \<^verbatim>\<open>events.go\<close> does keep a copy: its loop stores every event it publishes in its
  variable \<^verbatim>\<open>state\<close> and sends the stored value to each queue it registers.
\<close>

theorem state_not_cached_with_provider:
  fixes st :: "'a system"
  assumes "registry_ok st"
  shows "(\<exists>st'. run_select (EventPush e) st = Inr st' \<and>
                nextChan st' = nextChan st \<and> running st' = running st \<and>
                phase st' = phase st \<and> wire st' = wire st \<and>
                (\<forall>c. c \<notin> set (clients st) \<longrightarrow> chans st' c = chans st c) \<and>
                set (clients st') \<subseteq> set (clients st)) \<and>
         (running st \<longrightarrow>
            (\<exists>st'. listen config w st =
                     Inr (case StateFunc config of Some f \<Rightarrow> f w | None \<Rightarrow> EmptyStruct,
                          nextChan st, st'))) \<and>
         (\<exists>st'. run_select_events_go (EventPush e) (state_var, st) = Inr (e, st')) \<and>
         (\<forall>c. \<not> is_closed (chans st c) \<and> length (items (chans st c)) < capacity (chans st c) \<longrightarrow>
              (\<exists>st'. run_select_events_go (Register c) (state_var, st) = Inr (state_var, st') \<and>
                     items (chans st' c) = items (chans st c) @ [state_var]))"
proof -
  from publish_spec[OF assms, of e] obtain st' where
    p: "publish e st = Inr st'"
    and ch: "\<forall>c. chans st' c = (if c \<in> set (clients st) then offer e (chans st c) else chans st c)"
    and cl: "clients st' = filter (\<lambda>c. has_room (chans st c)) (clients st)"
    and rest: "nextChan st' = nextChan st" "running st' = running st"
              "phase st' = phase st" "wire st' = wire st"
    by blast
  have fr: "\<forall>c. c \<notin> set (clients st) \<longrightarrow> chans st' c = chans st c" by (simp add: ch)
  have sub: "set (clients st') \<subseteq> set (clients st)" by (auto simp: cl)
  have 1: "\<exists>st'. run_select (EventPush e) st = Inr st' \<and>
                nextChan st' = nextChan st \<and> running st' = running st \<and>
                phase st' = phase st \<and> wire st' = wire st \<and>
                (\<forall>c. c \<notin> set (clients st) \<longrightarrow> chans st' c = chans st c) \<and>
                set (clients st') \<subseteq> set (clients st)"
    using p rest fr sub by simp
  have 2: "running st \<longrightarrow>
            (\<exists>st'. listen config w st =
                     Inr (case StateFunc config of Some f \<Rightarrow> f w | None \<Rightarrow> EmptyStruct,
                          nextChan st, st'))"
    by (simp add: listen_def listen_buffer_spec state_def)
  have 3: "\<exists>st'. run_select_events_go (EventPush e) (state_var, st) = Inr (e, st')"
    using p by simp
  have 4: "\<forall>c. \<not> is_closed (chans st c) \<and> length (items (chans st c)) < capacity (chans st c) \<longrightarrow>
              (\<exists>st'. run_select_events_go (Register c) (state_var, st) = Inr (state_var, st') \<and>
                     items (chans st' c) = items (chans st c) @ [state_var])"
    by (simp add: send_def register_def)
  show ?thesis using 1 2 3 4 by - (intro conjI; assumption)
qed

theorem state_not_cached_with_provider_witness:
  "registry_ok two_queues \<and> running two_queues \<and>
   run_select (EventPush (Val 7)) two_queues =
     Inr (two_queues\<lparr>chans := (chans two_queues)
                         (0 := \<lparr>items = [Val 1], capacity = 1, is_closed = True\<rparr>,
                          1 := \<lparr>items = [Val 7], capacity = 1, is_closed = False\<rparr>),
                      clients := [1]\<rparr>) \<and>
   (\<exists>st'. listen counting_provider 5 two_queues = Inr (Val 5, 2, st')) \<and>
   (\<exists>st'. run_select_events_go (EventPush (Val 7)) (EmptyStruct, two_queues) = Inr (Val 7, st')) \<and>
   \<not> is_closed (chans two_queues 1) \<and>
   length (items (chans two_queues 1)) < capacity (chans two_queues 1) \<and>
   (\<exists>st'. run_select_events_go (Register 1) (Val 7, two_queues) = Inr (Val 7, st') \<and>
          items (chans st' 1) = [Val 7])"
proof -
  have h: "registry_ok two_queues"
    by (simp add: registry_ok_def two_queues_def)
  have r: "running two_queues" by (simp add: two_queues_def)
  have q: "\<not> is_closed (chans two_queues 1) \<and>
     length (items (chans two_queues 1)) < capacity (chans two_queues 1) \<and>
     items (chans two_queues 1) = [] \<and> nextChan two_queues = 2"
    by (simp add: two_queues_def)
  have p: "run_select (EventPush (Val 7)) two_queues =
     Inr (two_queues\<lparr>chans := (chans two_queues)
                         (0 := \<lparr>items = [Val 1], capacity = 1, is_closed = True\<rparr>,
                          1 := \<lparr>items = [Val 7], capacity = 1, is_closed = False\<rparr>),
                      clients := [1]\<rparr>)"
    by (simp add: two_queues_def publish_def send_def drop_def close_chan_def unregister_def
        fun_upd_twist)
  note t = state_not_cached_with_provider[OF h, of "Val 7" counting_provider 5 "Val 7"]
  from t have a: "\<exists>st'. listen counting_provider 5 two_queues = Inr (Val 5, 2, st')"
    using r q by (simp add: counting_provider_def)
  from t have "\<exists>st'. run_select_events_go (EventPush (Val 7)) (Val 7, two_queues) = Inr (Val 7, st')"
    by blast
  have b: "\<exists>st'. run_select_events_go (EventPush (Val 7)) (EmptyStruct, two_queues) = Inr (Val 7, st')"
    using state_not_cached_with_provider[OF h, of "Val 7" counting_provider 5 EmptyStruct]
    by blast
  from t have "\<not> is_closed (chans two_queues 1) \<and>
       length (items (chans two_queues 1)) < capacity (chans two_queues 1) \<longrightarrow>
              (\<exists>st'. run_select_events_go (Register 1) (Val 7, two_queues) = Inr (Val 7, st') \<and>
                     items (chans st' 1) = items (chans two_queues 1) @ [Val 7])"
    by blast
  with q have c: "\<exists>st'. run_select_events_go (Register 1) (Val 7, two_queues) = Inr (Val 7, st') \<and>
          items (chans st' 1) = [Val 7]"
    by simp
  show ?thesis using h r p a b q c by simp
qed

text \<open>
  The loop of \<^verbatim>\<open>events.go\<close>, started with \<^verbatim>\<open>struct{}{}\<close> as its state: one event
  replaces the stored state, and the next \<^verbatim>\<open>listen\<close> finds that event in its queue.
\<close>

theorem events_go_caches_state_counterexample:
  "fst (MakeEvents_events_go :: nat iface \<times> nat system) = EmptyStruct \<and>
   run_select_events_go (EventPush (Val 1)) (MakeEvents_events_go :: nat iface \<times> nat system) =
     Inr (Val 1, MakeEvents) \<and>
   listen_events_go (Val 1, MakeEvents :: nat system) =
     Inr (0, Val 1,
          \<lparr>clients = [0],
           chans = (\<lambda>_. \<lparr>items = [], capacity = 0, is_closed = False\<rparr>)
                     (0 := \<lparr>items = [Val 1], capacity = 100, is_closed = False\<rparr>),
           nextChan = 1,
           running = True,
           phase = (\<lambda>_. Idle),
           wire = (\<lambda>_. [])\<rparr>)"
  by (simp add: MakeEvents_events_go_def MakeEvents_def publish_def listen_events_go_def
      make_chan_def register_def send_def EVENTS_BUFFER_def)

section \<open>The scenario with buffers of two\<close>

text \<open>
  C9. With a buffer of two and one subscriber that never reads: after two events the
  queue is full and still registered; the third event closes and removes it; the fourth
  finds no subscriber and changes nothing; a subscriber who comes next gets from
  \<^verbatim>\<open>listen\<close> the state of that moment, which is what \<^verbatim>\<open>StateFunc\<close> returns for the
  application as it is then (\<^verbatim>\<open>struct{}{}\<close> without a \<^verbatim>\<open>StateFunc\<close>) and not what it
  returned to the first subscriber; the fifth event is the only one in its queue, and
  what it writes to its connection is that state and then the fifth event.
\<close>

theorem capacity_two_scenario:
  fixes e1 :: "'a iface"
  shows "\<exists>s1 s2 s3 s5 s6 s7.
     step 2 config (Listen w0) MakeEvents = Inr s1 \<and>
     clients s1 = [0] \<and>
     phase s1 0 = Initial (case StateFunc config of Some f \<Rightarrow> f w0 | None \<Rightarrow> EmptyStruct) \<and>
     exec 2 config [Push e1, Push e2] s1 = Inr s2 \<and>
     clients s2 = [0] \<and>
     chans s2 0 = \<lparr>items = [e1, e2], capacity = 2, is_closed = False\<rparr> \<and>
     step 2 config (Push e3) s2 = Inr s3 \<and>
     clients s3 = [] \<and>
     chans s3 0 = \<lparr>items = [e1, e2], capacity = 2, is_closed = True\<rparr> \<and>
     step 2 config (Push e4) s3 = Inr s3 \<and>
     listen_buffer 2 config w1 s3 =
       Inr (case StateFunc config of Some f \<Rightarrow> f w1 | None \<Rightarrow> EmptyStruct, 1,
            s5\<lparr>phase := phase s3, wire := wire s3\<rparr>) \<and>
     step 2 config (Listen w1) s3 = Inr s5 \<and>
     clients s5 = [1] \<and>
     phase s5 1 = Initial (case StateFunc config of Some f \<Rightarrow> f w1 | None \<Rightarrow> EmptyStruct) \<and>
     phase s5 1 = Initial (state config w1) \<and>
     chans s5 1 = \<lparr>items = [], capacity = 2, is_closed = False\<rparr> \<and>
     step 2 config (Push e5) s5 = Inr s6 \<and>
     clients s6 = [1] \<and>
     chans s6 1 = \<lparr>items = [e5], capacity = 2, is_closed = False\<rparr> \<and>
     chans s6 0 = \<lparr>items = [e1, e2], capacity = 2, is_closed = True\<rparr> \<and>
     exec 2 config [Serve 1 True, Serve 1 True, Serve 1 True] s6 = Inr s7 \<and>
     wire s7 1 = [case StateFunc config of Some f \<Rightarrow> f w1 | None \<Rightarrow> EmptyStruct, e5] \<and>
     wire s7 1 = [state config w1, e5] \<and>
     items (chans s7 1) = [] \<and>
     phase s7 1 = Streaming"
  by (simp add: MakeEvents_def listen_buffer_def make_chan_def register_def publish_def
      send_def drop_def close_chan_def unregister_def serve_step_def recv_def state_def)

text \<open>
  The scenario with events 10 to 50 and a \<^verbatim>\<open>StateFunc\<close> that returns the application's
  counter: the first subscriber registers when the counter is 3, the second when it is
  8, and the second writes 8 and then 50. Without a \<^verbatim>\<open>StateFunc\<close> it writes
  \<^verbatim>\<open>struct{}{}\<close> and then 50.
\<close>

theorem capacity_two_scenario_witness:
  "(\<exists>s1 s2 s3 s5 s6 s7.
     step 2 counting_provider (Listen 3) (MakeEvents :: nat system) = Inr s1 \<and>
     phase s1 0 = Initial (Val 3) \<and>
     exec 2 counting_provider [Push (Val 10), Push (Val 20)] s1 = Inr s2 \<and>
     step 2 counting_provider (Push (Val 30)) s2 = Inr s3 \<and>
     clients s3 = [] \<and>
     step 2 counting_provider (Push (Val 40)) s3 = Inr s3 \<and>
     step 2 counting_provider (Listen 8) s3 = Inr s5 \<and>
     phase s5 1 = Initial (Val 8) \<and>
     step 2 counting_provider (Push (Val 50)) s5 = Inr s6 \<and>
     exec 2 counting_provider [Serve 1 True, Serve 1 True, Serve 1 True] s6 = Inr s7 \<and>
     wire s7 1 = [Val 8, Val 50] \<and>
     wire s7 0 = []) \<and>
   (\<exists>s1 s2 s3 s5 s6 s7.
     step 2 no_provider (Listen ()) (MakeEvents :: nat system) = Inr s1 \<and>
     exec 2 no_provider [Push (Val 10), Push (Val 20)] s1 = Inr s2 \<and>
     step 2 no_provider (Push (Val 30)) s2 = Inr s3 \<and>
     step 2 no_provider (Push (Val 40)) s3 = Inr s3 \<and>
     step 2 no_provider (Listen ()) s3 = Inr s5 \<and>
     step 2 no_provider (Push (Val 50)) s5 = Inr s6 \<and>
     exec 2 no_provider [Serve 1 True, Serve 1 True, Serve 1 True] s6 = Inr s7 \<and>
     wire s7 1 = [EmptyStruct, Val 50])"
  using capacity_two_scenario[of counting_provider 3 "Val 10" "Val 20" "Val 30" "Val 40" 8 "Val 50"]
    capacity_two_scenario[of no_provider "()" "Val 10" "Val 20" "Val 30" "Val 40" "()" "Val 50"]
  by (simp add: MakeEvents_def listen_buffer_def make_chan_def register_def publish_def
      send_def drop_def close_chan_def unregister_def serve_step_def recv_def state_def
      counting_provider_def no_provider_def)

end
